theory Spec2Isabelle
  imports Main
begin

section \<open>Errors and settled promises\<close>

text \<open>
  The JavaScript sources signal failure by throwing or by rejecting a promise.  The
  classes \<open>KinveyError\<close> and \<open>NotFoundError\<close> come from the module
  \<open>errors\<close>; \<open>TypeError\<close> is what the runtime throws when a property of
  \<open>undefined\<close> is read or a non-function is called.  \<open>NoReason\<close> is the
  rejection reason of \<open>Promise.reject()\<close>, which is \<open>undefined\<close>.

  A promise is represented by the outcome it settles to: \<open>Inl e\<close> when it is
  rejected with \<open>e\<close>, \<open>Inr v\<close> when it is fulfilled with \<open>v\<close>.
\<close>

datatype error =
    KinveyError string
  | NotFoundError string
  | TypeError string
  | OtherError string
  | NoReason

section \<open>The repository provider (repository-provider.js)\<close>

text \<open>
  \<open>queue\<close> is the one \<open>PromiseQueueByKey\<close> instance shared by all
  repositories.  A builder receives it and returns a repository (or throws).  The
  repository classes are not part of the sources, so the repository type \<open>'r\<close> and
  the repositories' \<open>create\<close> operation are parameters.
\<close>

datatype queue = PromiseQueueByKey

type_synonym 'r builder = "queue \<Rightarrow> error + 'r"

text \<open>
  \<open>Client.sharedInstance().storage\<close> is either one identifier or an array of
  identifiers; \<open>ensureArray\<close> wraps the former.
\<close>

datatype storage_setting = One string | Many "string list"

fun ensureArray :: "storage_setting \<Rightarrow> string list" where
  "ensureArray (One x) = [x]"
| "ensureArray (Many xs) = xs"

text \<open>
  The trace records, in order, each invocation of a builder and each liveness probe,
  by the identifier it was made for.  It is how the theorems below say that something
  was, or was not, probed.
\<close>

datatype pevent = Build string | Probe string

text \<open>
  The module-level state: \<open>_availableStorages\<close>, \<open>_chosenRepoPromise\<close>
  (\<open>None\<close> while it is still \<open>undefined\<close>), and the client's storage
  setting read by \<open>_getRepoType\<close>.
\<close>

record 'r provider =
  availableStorages :: "string \<rightharpoonup> 'r builder"
  chosenRepoPromise :: "(error + 'r) option"
  storage :: storage_setting
  trace :: "pevent list"

definition queue :: queue where
  "queue = PromiseQueueByKey"

definition getRepoType :: "'r provider \<Rightarrow> storage_setting" where
  "getRepoType s = storage s"

text \<open>
  Modelled from the spec: the name of the reserved probe collection is the constant
  \<open>testSupportCollection\<close> of \<open>./utils\<close>, which is not part of the
  sources; the spec only says that it is a name reserved for the probe.  No theorem
  below depends on its value.
\<close>

definition testSupportCollection :: string where
  "testSupportCollection = ''__testSupport__''"

definition testRepoSupport ::
  "('r \<Rightarrow> string \<Rightarrow> (string \<times> string) list \<Rightarrow> error + unit) \<Rightarrow> 'r \<Rightarrow> error + unit" where
  "testRepoSupport create repo = create repo testSupportCollection [(''_id'', ''1'')]"

definition unavailableMsg :: "string \<Rightarrow> string" where
  "unavailableMsg storageProvider =
     ''The requested storage provider '' @ [CHR 0x22] @ storageProvider @ [CHR 0x22]
       @ '' is not available in this environment''"

definition getRepoForStorageProvider :: "'r provider \<Rightarrow> string \<Rightarrow> (error + 'r) \<times> 'r provider" where
  "getRepoForStorageProvider s storageProvider =
     (case availableStorages s storageProvider of
        None \<Rightarrow> (Inl (KinveyError (unavailableMsg storageProvider)), s)
      | Some repoBuilder \<Rightarrow>
          (repoBuilder queue, s\<lparr>trace := trace s @ [Build storageProvider]\<rparr>))"

text \<open>
  One round of the \<open>reduce\<close> in \<open>_getFirstSupportedRepo\<close>:
  \<open>result.catch(() => ...)\<close>.  A fulfilled \<open>result\<close> passes through; a
  rejected one runs the handler, whatever the reason of the rejection.  Inside the
  handler a throw of \<open>_getRepoForStorageProvider\<close> or of the builder rejects
  the promise the handler returns, as a failed probe does.
\<close>

definition supportRound ::
  "('r \<Rightarrow> string \<Rightarrow> (string \<times> string) list \<Rightarrow> error + unit) \<Rightarrow>
   (error + 'r) \<times> 'r provider \<Rightarrow> string \<Rightarrow> (error + 'r) \<times> 'r provider" where
  "supportRound create acc storageProvider =
     (case acc of
        (Inr repo, s) \<Rightarrow> (Inr repo, s)
      | (Inl _, s) \<Rightarrow>
          (case getRepoForStorageProvider s storageProvider of
             (Inl e, s1) \<Rightarrow> (Inl e, s1)
           | (Inr repo, s1) \<Rightarrow>
               (case testRepoSupport create repo of
                  Inl e \<Rightarrow> (Inl e, s1\<lparr>trace := trace s1 @ [Probe storageProvider]\<rparr>)
                | Inr _ \<Rightarrow> (Inr repo, s1\<lparr>trace := trace s1 @ [Probe storageProvider]\<rparr>))))"

definition getFirstSupportedRepo ::
  "('r \<Rightarrow> string \<Rightarrow> (string \<times> string) list \<Rightarrow> error + unit) \<Rightarrow>
   string list \<Rightarrow> 'r provider \<Rightarrow> (error + 'r) \<times> 'r provider" where
  "getFirstSupportedRepo create storagePrecedence s =
     foldl (supportRound create) (Inl NoReason, s) storagePrecedence"

definition noneSupportedMsg :: string where
  "noneSupportedMsg = ''None of the selected storage providers are supported in this environment.''"

text \<open>
  The handler of the \<open>catch\<close> in \<open>_chooseOfflineRepo\<close>: whatever the
  reason of the rejection, the promise is rejected with a new \<open>KinveyError\<close>; a
  fulfilled promise passes through.
\<close>

definition catchNoneSupported :: "(error + 'r) \<times> 'r provider \<Rightarrow> (error + 'r) \<times> 'r provider" where
  "catchNoneSupported acc =
     (case acc of
        (Inr repo, s1) \<Rightarrow> (Inr repo, s1)
      | (Inl _, s1) \<Rightarrow> (Inl (KinveyError noneSupportedMsg), s1))"

definition chooseOfflineRepo ::
  "('r \<Rightarrow> string \<Rightarrow> (string \<times> string) list \<Rightarrow> error + unit) \<Rightarrow>
   'r provider \<Rightarrow> (error + 'r) \<times> 'r provider" where
  "chooseOfflineRepo create s =
     (let storagePrecedence = ensureArray (getRepoType s) in
      catchNoneSupported (getFirstSupportedRepo create storagePrecedence s))"

text \<open>
  \<open>getOfflineRepository\<close>: the promise is created and stored by the first call
  and returned by every call.  With a promise represented by its outcome, the chain of
  the first call is run to completion at that call: the model covers the executions in
  which nothing else changes the state of the module while the promise is pending.
\<close>

definition getOfflineRepository ::
  "('r \<Rightarrow> string \<Rightarrow> (string \<times> string) list \<Rightarrow> error + unit) \<Rightarrow>
   'r provider \<Rightarrow> (error + 'r) \<times> 'r provider" where
  "getOfflineRepository create s =
     (case chosenRepoPromise s of
        None \<Rightarrow>
          (case chooseOfflineRepo create s of
             (p, s1) \<Rightarrow> (p, s1\<lparr>chosenRepoPromise := Some p\<rparr>))
      | Some p \<Rightarrow> (p, s))"

definition setSupportedRepoBuilders :: "(string \<rightharpoonup> 'r builder) \<Rightarrow> 'r provider \<Rightarrow> 'r provider" where
  "setSupportedRepoBuilders repos s = s\<lparr>availableStorages := repos\<rparr>"

section \<open>JavaScript values and records\<close>

text \<open>
  The values that reach the cache engine as identifiers, field values and request fields.
  Numbers are integers or \<open>NaN\<close> (only their truthiness is ever inspected); an
  array stored in a field is an object keyed by its indices.  A record (entity) is the
  list of its own properties.
\<close>

datatype jsval =
    JUndefined
  | JNull
  | JBool bool
  | JNum int
  | JNaN
  | JStr string
  | JObj "(string \<times> jsval) list"

type_synonym entity = "(string \<times> jsval) list"

fun truthy :: "jsval \<Rightarrow> bool" where
  "truthy JUndefined = False"
| "truthy JNull = False"
| "truthy (JBool b) = b"
| "truthy (JNum n) = (n \<noteq> 0)"
| "truthy JNaN = False"
| "truthy (JStr s) = (s \<noteq> [])"
| "truthy (JObj _) = True"

fun isString :: "jsval \<Rightarrow> bool" where
  "isString (JStr _) = True"
| "isString _ = False"

definition getProp :: "entity \<Rightarrow> string \<Rightarrow> jsval" where
  "getProp e k = (case map_of e k of None \<Rightarrow> JUndefined | Some v \<Rightarrow> v)"

fun setProp :: "entity \<Rightarrow> string \<Rightarrow> jsval \<Rightarrow> entity" where
  "setProp [] k v = [(k, v)]"
| "setProp ((k', v') # e) k v =
     (if k' = k then (k, v) # e else (k', v') # setProp e k v)"

text \<open>
  The names of the two reserved fields, at their defaults (the sources read them from
  the environment variables \<open>KINVEY_ID_ATTRIBUTE\<close> and
  \<open>KINVEY_KMD_ATTRIBUTE\<close> first).
\<close>

definition idAttribute :: string where
  "idAttribute = ''_id''"

definition kmdAttribute :: string where
  "kmdAttribute = ''_kmd''"

text \<open>What an operation hands back: an array, or a single value.\<close>

datatype data = Array "jsval list" | Value jsval

section \<open>Storage adapters\<close>

text \<open>
  The adapter classes (\<open>./adapters/*\<close>) are not part of the sources: they are
  parameters.  A call of an adapter method either throws at once or returns a promise;
  the difference is visible where the engine returns the promise without awaiting it.
  \<open>'s\<close> is whatever the storage technology persists.
\<close>

datatype 'a call = Thrown error | Promised "error + 'a"

fun await :: "'a call \<Rightarrow> error + 'a" where
  "await (Thrown e) = Inl e"
| "await (Promised p) = p"

record 's adapter =
  ad_find :: "jsval \<Rightarrow> 's \<Rightarrow> entity list call \<times> 's"
  ad_findById :: "jsval \<Rightarrow> string \<Rightarrow> 's \<Rightarrow> jsval call \<times> 's"
  ad_save :: "jsval \<Rightarrow> entity list \<Rightarrow> 's \<Rightarrow> entity list call \<times> 's"
  ad_removeById :: "jsval \<Rightarrow> string \<Rightarrow> 's \<Rightarrow> jsval call \<times> 's"

datatype adapter_class = IndexedDB | LocalStorage | Memory | WebSQL

datatype adapter_instance = New adapter_class jsval

text \<open>The frozen enumeration \<open>DBAdapter\<close>.\<close>

definition DBAdapter_IndexedDB :: string where
  "DBAdapter_IndexedDB = ''IndexedDB''"

definition DBAdapter_LocalStorage :: string where
  "DBAdapter_LocalStorage = ''LocalStorage''"

definition DBAdapter_Memory :: string where
  "DBAdapter_Memory = ''Memory''"

definition DBAdapter_WebSQL :: string where
  "DBAdapter_WebSQL = ''WebSQL''"

text \<open>The trace of adapter invocations, in order.\<close>

datatype invocation =
    Find jsval
  | FindById jsval string
  | Save jsval "entity list"
  | RemoveById jsval string

section \<open>Queries\<close>

text \<open>
  Modelled from the spec: the class \<open>Query\<close> (\<open>../../query\<close>) is not part
  of the sources.  The spec describes a query as a predicate/sort/limit/skip
  specification that is processed against an in-memory list of records, and its
  \<open>process\<close> as pure and free of side effects.  The fields \<open>sort\<close>,
  \<open>limit\<close> and \<open>skip\<close> are those that \<open>DB.remove\<close> assigns;
  \<open>None\<close> stands for \<open>null\<close>.
\<close>

record query =
  q_filter :: "entity \<Rightarrow> bool"
  q_sort :: "(entity \<Rightarrow> int) option"
  q_limit :: "nat option"
  q_skip :: nat

text \<open>
  Modelled from the spec: \<open>Query._process\<close> keeps the records that match the
  predicate, orders them when a sort is given, drops \<open>skip\<close> of them and keeps
  at most \<open>limit\<close>.
\<close>

definition query_process :: "query \<Rightarrow> entity list \<Rightarrow> entity list" where
  "query_process q entities =
     (let matching = filter (q_filter q) entities;
          ordered = (case q_sort q of None \<Rightarrow> matching | Some k \<Rightarrow> sort_key k matching);
          skipped = drop (q_skip q) ordered
      in case q_limit q of None \<Rightarrow> skipped | Some n \<Rightarrow> take n skipped)"

text \<open>
  What a caller passes as \<open>query\<close>: nothing (or another falsy value), a reference
  to a \<open>Query\<close> instance, or a plain specification that is not an instance.
\<close>

datatype query_arg = QFalsy | QInstance nat | QPlain query

section \<open>Requests\<close>

text \<open>
  \<open>RequestMethod\<close> and \<open>StatusCode\<close> are enumerations of the request
  layer.  A request body is absent, falsy, one record, or an array of records.
\<close>

datatype RequestMethod = GET | POST | PATCH | PUT | DELETE

datatype StatusCode = Ok | Created

datatype body = BodyUndefined | BodyFalsy | BodyRecord entity | BodyArray "entity list"

section \<open>The platform and the world\<close>

text \<open>
  The platform collects what the sources import and do not define: which adapter
  classes answer \<open>isSupported()\<close>, what an instance of each does, how an
  aggregation processes records, and the order in time in which promises of the adapter
  are rejected: given the reasons of several such promises, in the order in which the
  promises were created, \<open>rejectedFirst\<close> is the position of the one that is
  rejected first.
\<close>

record 's platform =
  isSupported :: "adapter_class \<Rightarrow> bool"
  instantiate :: "adapter_class \<Rightarrow> jsval \<Rightarrow> 's adapter"
  aggregate :: "body \<Rightarrow> entity list \<Rightarrow> error + jsval"
  rejectedFirst :: "error list \<Rightarrow> nat"

text \<open>
  The world is everything an operation can change: the persisted state of the storage
  technology, the trace of adapter invocations, the heap of \<open>Query\<close> instances
  (\<open>nextQuery\<close> is the first free address), the source of \<open>Math.random\<close>
  (\<open>random i\<close> is the \<open>i\<close>-th draw, \<open>drawn\<close> the number of draws
  made), and the messages logged.
\<close>

record 's world =
  store :: 's
  invocations :: "invocation list"
  queries :: "nat \<Rightarrow> query"
  nextQuery :: nat
  random :: "nat \<Rightarrow> nat"
  drawn :: nat
  logged :: "string list"

definition newQuery :: "query \<Rightarrow> 's world \<Rightarrow> nat \<times> 's world" where
  "newQuery spec w =
     (nextQuery w, w\<lparr>queries := (queries w)(nextQuery w := spec), nextQuery := Suc (nextQuery w)\<rparr>)"

section \<open>The cache engine (class DB of cache.js)\<close>

record db =
  adapter :: "adapter_instance option"

datatype adapters_arg = AdaptersDefault | AdaptersOne string | AdaptersList "string list"

definition notRecognizedMsg :: "string \<Rightarrow> string" where
  "notRecognizedMsg a = ''The '' @ a @ '' adapter is is not recognized.''"

text \<open>
  The \<open>forEach\<close> of the constructor: the iteratee returns \<open>false\<close>, which
  ends the iteration, as soon as a listed adapter is supported.  The result is the
  adapter chosen, if any, and the warnings logged on the way.
\<close>

fun forEachAdapter ::
  "(adapter_class \<Rightarrow> bool) \<Rightarrow> jsval \<Rightarrow> string list \<Rightarrow> adapter_instance option \<times> string list" where
  "forEachAdapter supported name [] = (None, [])"
| "forEachAdapter supported name (a # rest) =
     (if a = DBAdapter_IndexedDB then
        (if supported IndexedDB then (Some (New IndexedDB name), [])
         else forEachAdapter supported name rest)
      else if a = DBAdapter_LocalStorage then
        (if supported LocalStorage then (Some (New LocalStorage name), [])
         else forEachAdapter supported name rest)
      else if a = DBAdapter_Memory then
        (if supported Memory then (Some (New Memory name), [])
         else forEachAdapter supported name rest)
      else if a = DBAdapter_WebSQL then
        (if supported WebSQL then (Some (New WebSQL name), [])
         else forEachAdapter supported name rest)
      else (case forEachAdapter supported name rest of
              (chosen, warnings) \<Rightarrow> (chosen, notRecognizedMsg a # warnings)))"

definition defaultAdapters :: "string list" where
  "defaultAdapters =
     [DBAdapter_IndexedDB, DBAdapter_WebSQL, DBAdapter_LocalStorage, DBAdapter_Memory]"

definition defaultingMsg :: string where
  "defaultingMsg =
     ''Provided adapters are unsupported on this platform. Defaulting to the Memory adapter.''"

definition unsupportedMsg :: string where
  "unsupportedMsg = ''Provided adapters are unsupported on this platform.''"

definition DB_constructor ::
  "'s platform \<Rightarrow> jsval \<Rightarrow> adapters_arg \<Rightarrow> 's world \<Rightarrow> db \<times> 's world" where
  "DB_constructor P name adapters w =
     (let adapters1 =
            (case adapters of
               AdaptersDefault \<Rightarrow> defaultAdapters
             | AdaptersOne a \<Rightarrow> [a]
             | AdaptersList as \<Rightarrow> as)
      in case forEachAdapter (isSupported P) name adapters1 of
           (Some a, warnings) \<Rightarrow>
             (\<lparr>adapter = Some a\<rparr>, w\<lparr>logged := logged w @ warnings\<rparr>)
         | (None, warnings) \<Rightarrow>
             (if isSupported P Memory then
                (\<lparr>adapter = Some (New Memory name)\<rparr>,
                 w\<lparr>logged := logged w @ warnings @ [defaultingMsg]\<rparr>)
              else
                (\<lparr>adapter = None\<rparr>,
                 w\<lparr>logged := logged w @ warnings @ [unsupportedMsg]\<rparr>)))"

definition objectIdPrefix :: string where
  "objectIdPrefix = []"

definition chars :: string where
  "chars = ''abcdef0123456789''"

text \<open>
  The loop of \<open>generateObjectId\<close>.  \<open>Math.floor(Math.random() * j)\<close> is a
  position below \<open>j\<close>; the draw is taken from the world's random source.
\<close>

fun generateLoop :: "nat \<Rightarrow> string \<Rightarrow> 's world \<Rightarrow> string \<times> 's world" where
  "generateLoop 0 objectId w = (objectId, w)"
| "generateLoop (Suc n) objectId w =
     (let j = length chars;
          pos = random w (drawn w) mod j
      in generateLoop n (objectId @ take 1 (drop pos chars)) (w\<lparr>drawn := Suc (drawn w)\<rparr>))"

definition DB_generateObjectId :: "nat \<Rightarrow> 's world \<Rightarrow> string \<times> 's world" where
  "DB_generateObjectId len w =
     (case generateLoop len [] w of
        (objectId, w1) \<Rightarrow> (objectIdPrefix @ objectId, w1))"

text \<open>
  The four places where a method of \<open>this.adapter\<close> is invoked.  Without an
  adapter the property access throws a \<open>TypeError\<close>; otherwise the invocation is
  recorded and the adapter runs on the store.
\<close>

definition noAdapter :: "string \<Rightarrow> error" where
  "noAdapter m = TypeError (''Cannot read property '' @ m @ '' of undefined'')"

definition adapter_find ::
  "'s platform \<Rightarrow> db \<Rightarrow> jsval \<Rightarrow> 's world \<Rightarrow> entity list call \<times> 's world" where
  "adapter_find P this collection w =
     (case adapter this of
        None \<Rightarrow> (Thrown (noAdapter ''find''), w)
      | Some (New c name) \<Rightarrow>
          (case ad_find (instantiate P c name) collection (store w) of
             (r, st) \<Rightarrow> (r, w\<lparr>store := st, invocations := invocations w @ [Find collection]\<rparr>)))"

definition adapter_findById ::
  "'s platform \<Rightarrow> db \<Rightarrow> jsval \<Rightarrow> string \<Rightarrow> 's world \<Rightarrow> jsval call \<times> 's world" where
  "adapter_findById P this collection ident w =
     (case adapter this of
        None \<Rightarrow> (Thrown (noAdapter ''findById''), w)
      | Some (New c name) \<Rightarrow>
          (case ad_findById (instantiate P c name) collection ident (store w) of
             (r, st) \<Rightarrow>
               (r, w\<lparr>store := st, invocations := invocations w @ [FindById collection ident]\<rparr>)))"

definition adapter_save ::
  "'s platform \<Rightarrow> db \<Rightarrow> jsval \<Rightarrow> entity list \<Rightarrow> 's world \<Rightarrow> entity list call \<times> 's world" where
  "adapter_save P this collection entities w =
     (case adapter this of
        None \<Rightarrow> (Thrown (noAdapter ''save''), w)
      | Some (New c name) \<Rightarrow>
          (case ad_save (instantiate P c name) collection entities (store w) of
             (r, st) \<Rightarrow>
               (r, w\<lparr>store := st, invocations := invocations w @ [Save collection entities]\<rparr>)))"

definition adapter_removeById ::
  "'s platform \<Rightarrow> db \<Rightarrow> jsval \<Rightarrow> string \<Rightarrow> 's world \<Rightarrow> jsval call \<times> 's world" where
  "adapter_removeById P this collection ident w =
     (case adapter this of
        None \<Rightarrow> (Thrown (noAdapter ''removeById''), w)
      | Some (New c name) \<Rightarrow>
          (case ad_removeById (instantiate P c name) collection ident (store w) of
             (r, st) \<Rightarrow>
               (r, w\<lparr>store := st, invocations := invocations w @ [RemoveById collection ident]\<rparr>)))"

text \<open>The test \<open>error instanceof NotFoundError\<close>.\<close>

fun isNotFoundError :: "error \<Rightarrow> bool" where
  "isNotFoundError (NotFoundError _) = True"
| "isNotFoundError _ = False"

text \<open>
  \<open>find\<close>: the adapter's promise is awaited inside the \<open>try\<close>, so both a
  throw and a rejection reach the \<open>catch\<close>.  A plain specification is turned
  into a fresh \<open>Query\<close>; an instance is used as it is.
\<close>

definition DB_find ::
  "'s platform \<Rightarrow> db \<Rightarrow> jsval \<Rightarrow> query_arg \<Rightarrow> 's world \<Rightarrow> (error + entity list) \<times> 's world" where
  "DB_find P this collection query w =
     (case adapter_find P this collection w of (c, w1) \<Rightarrow>
        (case await c of
           Inl error \<Rightarrow> (if isNotFoundError error then Inr [] else Inl error, w1)
         | Inr entities \<Rightarrow>
             (case (case query of
                      QPlain spec \<Rightarrow> (case newQuery spec w1 of (a, w2) \<Rightarrow> (QInstance a, w2))
                    | _ \<Rightarrow> (query, w1)) of
                (QInstance a, w2) \<Rightarrow>
                  (if length entities > 0
                   then (Inr (query_process (queries w2 a) entities), w2)
                   else (Inr entities, w2))
              | (_, w2) \<Rightarrow> (Inr entities, w2))))"

definition DB_count ::
  "'s platform \<Rightarrow> db \<Rightarrow> jsval \<Rightarrow> query_arg \<Rightarrow> 's world \<Rightarrow> (error + jsval) \<times> 's world" where
  "DB_count P this collection query w =
     (case DB_find P this collection query w of
        (Inl error, w1) \<Rightarrow> (Inl error, w1)
      | (Inr entities, w1) \<Rightarrow> (Inr (JObj [(''count'', JNum (int (length entities)))]), w1))"

definition DB_group ::
  "'s platform \<Rightarrow> db \<Rightarrow> jsval \<Rightarrow> body \<Rightarrow> 's world \<Rightarrow> (error + jsval) \<times> 's world" where
  "DB_group P this collection aggregation w =
     (case DB_find P this collection QFalsy w of
        (Inl error, w1) \<Rightarrow> (Inl error, w1)
      | (Inr entities, w1) \<Rightarrow>
          (if length entities > 0 then (aggregate P aggregation entities, w1)
           else (Inr JNull, w1)))"

definition idMustBeString :: error where
  "idMustBeString = KinveyError ''id must be a string''"

text \<open>
  \<open>findById\<close>: the check of the identifier and the call of the adapter are inside
  the \<open>try\<close>, but the adapter's promise is returned without \<open>await\<close>.  A throw
  of the adapter reaches the \<open>catch\<close>; a rejection of the promise it returned does
  not, and settles the promise of \<open>findById\<close> itself.
\<close>

definition DB_findById ::
  "'s platform \<Rightarrow> db \<Rightarrow> jsval \<Rightarrow> jsval \<Rightarrow> 's world \<Rightarrow> (error + jsval) \<times> 's world" where
  "DB_findById P this collection ident w =
     (case ident of
        JStr i \<Rightarrow>
          (case adapter_findById P this collection i w of
             (Thrown error, w1) \<Rightarrow>
               (if isNotFoundError error then Inr JUndefined else Inl error, w1)
           | (Promised p, w1) \<Rightarrow> (p, w1))
      | _ \<Rightarrow>
          (if isNotFoundError idMustBeString then Inr JUndefined else Inl idMustBeString, w))"

text \<open>
  The iteratee of the \<open>map\<close> in \<open>save\<close>.  Assigning \<open>kmd.local\<close> on a
  metadata value that is not an object throws in strict mode.  The entity objects are
  values here; the record that is returned is the entity after the assignments.
\<close>

definition prepareEntity :: "entity \<Rightarrow> 's world \<Rightarrow> (error + entity) \<times> 's world" where
  "prepareEntity entity w =
     (let ident = getProp entity idAttribute;
          kmd = (if truthy (getProp entity kmdAttribute) then getProp entity kmdAttribute
                 else JObj [])
      in if \<not> truthy ident then
           (case DB_generateObjectId 24 w of (newId, w1) \<Rightarrow>
              (case kmd of
                 JObj props \<Rightarrow>
                   (Inr (setProp (setProp entity idAttribute (JStr newId)) kmdAttribute
                           (JObj (setProp props ''local'' (JBool True)))), w1)
               | _ \<Rightarrow> (Inl (TypeError ''Cannot create property local''), w1)))
         else (Inr (setProp (setProp entity idAttribute ident) kmdAttribute kmd), w))"

fun prepareAll :: "entity list \<Rightarrow> 's world \<Rightarrow> (error + entity list) \<times> 's world" where
  "prepareAll [] w = (Inr [], w)"
| "prepareAll (e # es) w =
     (case prepareEntity e w of
        (Inl error, w1) \<Rightarrow> (Inl error, w1)
      | (Inr e', w1) \<Rightarrow>
          (case prepareAll es w1 of
             (Inl error, w2) \<Rightarrow> (Inl error, w2)
           | (Inr es', w2) \<Rightarrow> (Inr (e' # es'), w2)))"

definition DB_save ::
  "'s platform \<Rightarrow> db \<Rightarrow> jsval \<Rightarrow> body \<Rightarrow> 's world \<Rightarrow> (error + data) \<times> 's world" where
  "DB_save P this collection entities w =
     (case entities of
        BodyFalsy \<Rightarrow> (Inr (Value JNull), w)
      | _ \<Rightarrow>
          (let singular = (case entities of BodyRecord _ \<Rightarrow> True | _ \<Rightarrow> False);
               entities1 = (case entities of BodyRecord e \<Rightarrow> [e] | BodyArray es \<Rightarrow> es | _ \<Rightarrow> [])
           in case prepareAll entities1 w of
                (Inl error, w1) \<Rightarrow> (Inl error, w1)
              | (Inr entities2, w1) \<Rightarrow>
                  (case adapter_save P this collection entities2 w1 of (c, w2) \<Rightarrow>
                     (case await c of
                        Inl error \<Rightarrow> (Inl error, w2)
                      | Inr entities3 \<Rightarrow>
                          (if singular \<and> length entities3 > 0
                           then (Inr (Value (JObj (entities3 ! 0))), w2)
                           else (Inr (Array (map JObj entities3)), w2))))))"

definition DB_removeById ::
  "'s platform \<Rightarrow> db \<Rightarrow> jsval \<Rightarrow> jsval \<Rightarrow> 's world \<Rightarrow> (error + jsval) \<times> 's world" where
  "DB_removeById P this collection ident w =
     (if \<not> truthy ident then (Inr JUndefined, w)
      else case ident of
             JStr i \<Rightarrow> (case adapter_removeById P this collection i w of (c, w1) \<Rightarrow> (await c, w1))
           | _ \<Rightarrow> (Inl idMustBeString, w))"

text \<open>
  How the promise that \<open>removeById\<close> returns settles.  It is settled at once
  when \<open>removeById\<close> returns \<open>undefined\<close> or throws (the validation
  error, or whatever the adapter's method throws).  Otherwise it adopts the promise that
  the adapter returned, and settles as that promise does, some turns of the job queue
  later even when that promise is settled already.  The outcome is that of
  \<open>DB_removeById\<close>.
\<close>

datatype 'a settling = AtOnce "error + 'a" | Adopted "error + 'a"

fun outcomeOf :: "'a settling \<Rightarrow> error + 'a" where
  "outcomeOf (AtOnce p) = p"
| "outcomeOf (Adopted p) = p"

definition removeById_promise ::
  "'s platform \<Rightarrow> db \<Rightarrow> jsval \<Rightarrow> jsval \<Rightarrow> 's world \<Rightarrow> jsval settling \<times> 's world" where
  "removeById_promise P this collection ident w =
     (if \<not> truthy ident then (AtOnce (Inr JUndefined), w)
      else case ident of
             JStr i \<Rightarrow>
               (case adapter_removeById P this collection i w of
                  (Thrown error, w1) \<Rightarrow> (AtOnce (Inl error), w1)
                | (Promised p, w1) \<Rightarrow> (Adopted p, w1))
           | _ \<Rightarrow> (AtOnce (Inl idMustBeString), w))"

text \<open>
  \<open>entities.map(entity => this.removeById(...))\<close> starts every removal, in order,
  whatever the outcome of the earlier ones.
\<close>

fun removeEach ::
  "'s platform \<Rightarrow> db \<Rightarrow> jsval \<Rightarrow> entity list \<Rightarrow> 's world \<Rightarrow> jsval settling list \<times> 's world" where
  "removeEach P this collection [] w = ([], w)"
| "removeEach P this collection (entity # rest) w =
     (case removeById_promise P this collection (getProp entity idAttribute) w of (r, w1) \<Rightarrow>
        (case removeEach P this collection rest w1 of (rs, w2) \<Rightarrow> (r # rs, w2)))"

text \<open>
  \<open>Promise.all\<close> is fulfilled with the values of all the promises, in the order
  of the list, when all of them are fulfilled; it is rejected as soon as one of them is,
  with the reason of the promise that is rejected first in time.  The promises rejected
  at once are rejected before \<open>Promise.all\<close> subscribes to them, so the first of
  them in the list comes first, before every promise that adopts a promise of the
  adapter.  Among the latter the order is the platform's: \<open>first\<close> gives the
  position of the one that is rejected first.
\<close>

fun rejectedAtOnce :: "'a settling list \<Rightarrow> error list" where
  "rejectedAtOnce [] = []"
| "rejectedAtOnce (AtOnce (Inl e) # ps) = e # rejectedAtOnce ps"
| "rejectedAtOnce (AtOnce (Inr v) # ps) = rejectedAtOnce ps"
| "rejectedAtOnce (Adopted p # ps) = rejectedAtOnce ps"

fun rejectedLater :: "'a settling list \<Rightarrow> error list" where
  "rejectedLater [] = []"
| "rejectedLater (Adopted (Inl e) # ps) = e # rejectedLater ps"
| "rejectedLater (Adopted (Inr v) # ps) = rejectedLater ps"
| "rejectedLater (AtOnce p # ps) = rejectedLater ps"

fun fulfilled :: "'a settling list \<Rightarrow> 'a list" where
  "fulfilled [] = []"
| "fulfilled (p # ps) = (case outcomeOf p of Inl e \<Rightarrow> fulfilled ps | Inr v \<Rightarrow> v # fulfilled ps)"

definition promiseAll :: "(error list \<Rightarrow> nat) \<Rightarrow> 'a settling list \<Rightarrow> error + 'a list" where
  "promiseAll first ps =
     (case rejectedAtOnce ps of
        e # _ \<Rightarrow> Inl e
      | [] \<Rightarrow>
          (case rejectedLater ps of
             [] \<Rightarrow> Inr (fulfilled ps)
           | e # es \<Rightarrow> Inl ((e # es) ! (first (e # es) mod length (e # es)))))"

text \<open>
  The three assignments of \<open>remove\<close> (\<open>query.sort = null; query.limit = null;
  query.skip = 0\<close>) on the \<open>Query\<close> instance at address \<open>a\<close>.
\<close>

definition resetWindow :: "nat \<Rightarrow> 's world \<Rightarrow> 's world" where
  "resetWindow a w =
     w\<lparr>queries := (queries w)
           (a := (queries w a)\<lparr>q_sort := None, q_limit := None, q_skip := 0\<rparr>)\<rparr>"

text \<open>
  \<open>remove\<close>: a plain specification becomes a fresh \<open>Query\<close>; then the
  \<open>sort\<close>, \<open>limit\<close> and \<open>skip\<close> of the query object are assigned, on the
  caller's object when the caller passed an instance.
\<close>

definition DB_remove ::
  "'s platform \<Rightarrow> db \<Rightarrow> jsval \<Rightarrow> query_arg \<Rightarrow> 's world \<Rightarrow> (error + jsval list) \<times> 's world" where
  "DB_remove P this collection query w =
     (case (case query of
              QPlain spec \<Rightarrow> (case newQuery spec w of (a, w1) \<Rightarrow> (QInstance a, w1))
            | _ \<Rightarrow> (query, w)) of (query1, w1) \<Rightarrow>
        (let w2 = (case query1 of QInstance a \<Rightarrow> resetWindow a w1 | _ \<Rightarrow> w1)
         in case DB_find P this collection query1 w2 of
              (Inl error, w3) \<Rightarrow> (Inl error, w3)
            | (Inr entities, w3) \<Rightarrow>
                (case removeEach P this collection entities w3 of (responses, w4) \<Rightarrow>
                   (case promiseAll (rejectedFirst P) responses of
                      Inl error \<Rightarrow> (Inl error, w4)
                    | Inr rs \<Rightarrow>
                        (Inr (foldl (\<lambda>entities entity. entities @ [entity]) [] rs), w4)))))"

section \<open>The cache middleware\<close>

record response =
  statusCode :: StatusCode
  headers :: "(string \<times> string) list"
  data :: data

record request =
  method' :: RequestMethod
  query :: query_arg
  body :: body
  collectionName :: jsval
  entityId :: jsval
  appKey :: jsval
  response :: "response option"

definition clearIsNotAFunction :: error where
  "clearIsNotAFunction = TypeError ''db.clear is not a function''"

text \<open>
  The body of \<open>handle\<close> between the construction of the engine and the response:
  the operation chosen by the method, the entity identifier and the collection name.
  The class \<open>DB\<close> has no method \<open>clear\<close>, so \<open>db.clear()\<close> throws.
\<close>

definition dispatch ::
  "'s platform \<Rightarrow> db \<Rightarrow> request \<Rightarrow> 's world \<Rightarrow> (error + data) \<times> 's world" where
  "dispatch P db request w =
     (if method' request = GET then
        (if truthy (entityId request) then
           (if entityId request = JStr ''_count'' then
              (case DB_count P db (collectionName request) (query request) w of
                 (r, w1) \<Rightarrow> (map_sum id Value r, w1))
            else if entityId request = JStr ''_group'' then
              (case DB_group P db (collectionName request) (body request) w of
                 (r, w1) \<Rightarrow> (map_sum id Value r, w1))
            else
              (case DB_findById P db (collectionName request) (entityId request) w of
                 (r, w1) \<Rightarrow> (map_sum id Value r, w1)))
         else
           (case DB_find P db (collectionName request) (query request) w of
              (r, w1) \<Rightarrow> (map_sum id (\<lambda>entities. Array (map JObj entities)) r, w1)))
      else if method' request = POST \<or> method' request = PUT then
        DB_save P db (collectionName request) (body request) w
      else if method' request = DELETE then
        (if truthy (collectionName request) \<and> truthy (entityId request) then
           (case DB_removeById P db (collectionName request) (entityId request) w of
              (r, w1) \<Rightarrow> (map_sum id Value r, w1))
         else if \<not> truthy (collectionName request) then
           (Inl clearIsNotAFunction, w)
         else
           (case DB_remove P db (collectionName request) (query request) w of
              (r, w1) \<Rightarrow> (map_sum id Array r, w1)))
      else (Inr (Value JUndefined), w))"

text \<open>
  \<open>handle\<close>.  \<open>super.handle\<close> belongs to \<open>KinveyMiddleware\<close>, which
  is not part of the sources: it is the parameter \<open>superHandle\<close>.
\<close>

definition CacheMiddleware_handle ::
  "'s platform \<Rightarrow> (request \<Rightarrow> error + request) \<Rightarrow> adapters_arg \<Rightarrow> request \<Rightarrow> 's world \<Rightarrow>
   (error + request) \<times> 's world" where
  "CacheMiddleware_handle P superHandle adapters request0 w =
     (case superHandle request0 of
        Inl error \<Rightarrow> (Inl error, w)
      | Inr request \<Rightarrow>
          (case DB_constructor P (appKey request) adapters w of (db, w1) \<Rightarrow>
             (case dispatch P db request w1 of
                (Inl error, w2) \<Rightarrow> (Inl error, w2)
              | (Inr d, w2) \<Rightarrow>
                  (Inr (request\<lparr>response :=
                          Some \<lparr>statusCode = (if method' request = POST then Created else Ok),
                                headers = [],
                                data = d\<rparr>\<rparr>), w2))))"

section \<open>The operation serializer\<close>

text \<open>
  Modelled from the spec: the class \<open>PromiseQueueByKey\<close> (\<open>../utils\<close>) is
  instantiated by the repository provider but is not part of the sources.  The spec
  (section 4.3) describes it: a mapping from key to the tail of that key's chain; a new
  operation is scheduled to start only after the current tail of its key settles,
  whatever the outcome, and becomes the new tail; a key not seen before has a settled
  tail, so its first operation runs at once.

  An operation is identified by a number.  It is waiting for the operation it was
  chained on, running, or settled (\<open>True\<close> when it was fulfilled, \<open>False\<close> when it
  was rejected).  The serializer keeps the tails and the operations submitted so far in
  the order of their submission, each with its key and its state.
\<close>

datatype opstate = Waiting nat | Running | Settled bool

type_synonym entry = "nat \<times> string \<times> opstate"

record serializer =
  tails :: "string \<rightharpoonup> nat"
  submitted :: "entry list"

definition initial :: serializer where
  "initial = \<lparr>tails = Map.empty, submitted = []\<rparr>"

definition stateOf :: "serializer \<Rightarrow> nat \<Rightarrow> opstate option" where
  "stateOf s operation = map_option snd (map_of (submitted s) operation)"

text \<open>
  Modelled from the spec: the state in which a new operation under \<open>key\<close> begins:
  running when the key has no tail or its tail has settled, waiting for the tail
  otherwise.
\<close>

definition startState :: "serializer \<Rightarrow> string \<Rightarrow> opstate" where
  "startState s key =
     (case tails s key of
        None \<Rightarrow> Running
      | Some t \<Rightarrow> (case stateOf s t of Some (Settled _) \<Rightarrow> Running | _ \<Rightarrow> Waiting t))"

text \<open>Modelled from the spec: \<open>run(key, operation)\<close>.\<close>

definition run :: "string \<Rightarrow> nat \<Rightarrow> serializer \<Rightarrow> serializer" where
  "run key operation s =
     s\<lparr>tails := (tails s)(key \<mapsto> operation),
       submitted := submitted s @ [(operation, key, startState s key)]\<rparr>"

text \<open>
  Modelled from the spec: the completion of a running operation.  The operation
  becomes settled with its outcome, and the operation that was chained on it starts,
  whether the outcome is a success or a failure.
\<close>

definition onSettled :: "nat \<Rightarrow> bool \<Rightarrow> entry \<Rightarrow> entry" where
  "onSettled operation outcome e =
     (case e of (x, key, st) \<Rightarrow>
        if x = operation then (x, key, Settled outcome)
        else if st = Waiting operation then (x, key, Running)
        else (x, key, st))"

definition settle :: "nat \<Rightarrow> bool \<Rightarrow> serializer \<Rightarrow> serializer" where
  "settle operation outcome s = s\<lparr>submitted := map (onSettled operation outcome) (submitted s)\<rparr>"

text \<open>
  What can happen to a serializer: a caller submits a new operation under a key, or a
  running operation completes.  \<open>exec\<close> runs a sequence of such events, and is
  \<open>None\<close> when one of them cannot happen.
\<close>

datatype event = Run string nat | Settle nat bool

fun enabled :: "event \<Rightarrow> serializer \<Rightarrow> bool" where
  "enabled (Run key operation) s = (operation \<notin> fst ` set (submitted s))"
| "enabled (Settle operation outcome) s = (stateOf s operation = Some Running)"

fun fire :: "event \<Rightarrow> serializer \<Rightarrow> serializer" where
  "fire (Run key operation) s = run key operation s"
| "fire (Settle operation outcome) s = settle operation outcome s"

fun exec :: "event list \<Rightarrow> serializer \<Rightarrow> serializer option" where
  "exec [] s = Some s"
| "exec (e # es) s = (if enabled e s then exec es (fire e s) else None)"

text \<open>The operations submitted under a key, in the order of their submission.\<close>

definition chainOf :: "string \<Rightarrow> serializer \<Rightarrow> entry list" where
  "chainOf key s = filter (\<lambda>e. fst (snd e) = key) (submitted s)"

fun isWaiting :: "entry \<Rightarrow> bool" where
  "isWaiting (x, key, Waiting p) = True"
| "isWaiting _ = False"

fun isRunning :: "entry \<Rightarrow> bool" where
  "isRunning (x, key, Running) = True"
| "isRunning _ = False"

fun isSettled :: "entry \<Rightarrow> bool" where
  "isSettled (x, key, Settled b) = True"
| "isSettled _ = False"

text \<open>
  First in, first out: an operation that has not settled is followed, in its chain,
  only by operations that have not started.
\<close>

fun startedInOrder :: "entry list \<Rightarrow> bool" where
  "startedInOrder [] = True"
| "startedInOrder (e # es) = ((isSettled e \<or> (\<forall>x\<in>set es. isWaiting x)) \<and> startedInOrder es)"

text \<open>No poisoning: the first operation of a chain that has not settled is running.\<close>

definition nextRuns :: "entry list \<Rightarrow> bool" where
  "nextRuns c = (case dropWhile isSettled c of [] \<Rightarrow> True | e # _ \<Rightarrow> isRunning e)"

text \<open>The shape of a chain: settled operations, then at most one running operation,
  then operations each waiting for the one before it.\<close>

fun waitingChain :: "nat \<Rightarrow> entry list \<Rightarrow> bool" where
  "waitingChain p [] = True"
| "waitingChain p ((x, key, st) # r) = (st = Waiting p \<and> waitingChain x r)"

fun chainOK :: "entry list \<Rightarrow> bool" where
  "chainOK [] = True"
| "chainOK ((x, key, Settled b) # r) = chainOK r"
| "chainOK ((x, key, Running) # r) = waitingChain x r"
| "chainOK ((x, key, Waiting p) # r) = False"

text \<open>
  The invariant of the serializer: no operation is submitted twice, every chain has
  the shape above, and the tail of a key is the last operation of its chain.
\<close>

definition invariant :: "serializer \<Rightarrow> bool" where
  "invariant s =
     (distinct (map fst (submitted s))
      \<and> (\<forall>key. chainOK (chainOf key s)
            \<and> tails s key
                = (if chainOf key s = [] then None else Some (fst (last (chainOf key s))))))"

text \<open>
  A scenario: two operations under the key \<open>a\<close> and one under \<open>b\<close>,
  before and after the first operation under \<open>a\<close> fails.
\<close>

definition beforeFailure :: serializer where
  "beforeFailure =
     \<lparr>tails = [''a'' \<mapsto> 2, ''b'' \<mapsto> 3],
      submitted = [(1, ''a'', Running), (2, ''a'', Waiting 1), (3, ''b'', Running)]\<rparr>"

definition afterFailure :: serializer where
  "afterFailure =
     \<lparr>tails = [''a'' \<mapsto> 2, ''b'' \<mapsto> 3],
      submitted = [(1, ''a'', Settled False), (2, ''a'', Running), (3, ''b'', Running)]\<rparr>"

section \<open>Vocabulary of the theorems\<close>

text \<open>
  An identifier passes in a state when it has a registered builder, the builder
  returns a repository, and the liveness probe on that repository is fulfilled.
\<close>

definition passes ::
  "('r \<Rightarrow> string \<Rightarrow> (string \<times> string) list \<Rightarrow> error + unit) \<Rightarrow> 'r provider \<Rightarrow> string \<Rightarrow> bool" where
  "passes create s x =
     (case availableStorages s x of
        None \<Rightarrow> False
      | Some repoBuilder \<Rightarrow>
          (case repoBuilder queue of
             Inl _ \<Rightarrow> False
           | Inr repo \<Rightarrow>
               (case testRepoSupport create repo of Inl _ \<Rightarrow> False | Inr _ \<Rightarrow> True)))"

text \<open>
  What can follow a first resolution: further calls of \<open>getOfflineRepository\<close>,
  each with whatever the probes would answer at that time, and replacements of the
  mapping by \<open>setSupportedRepoBuilders\<close>.  \<open>laterCalls\<close> collects the
  outcomes that the calls return.
\<close>

datatype 'r later =
    Resolve "'r \<Rightarrow> string \<Rightarrow> (string \<times> string) list \<Rightarrow> error + unit"
  | Replace "string \<rightharpoonup> 'r builder"

fun laterCalls :: "'r later list \<Rightarrow> 'r provider \<Rightarrow> (error + 'r) list \<times> 'r provider" where
  "laterCalls [] s = ([], s)"
| "laterCalls (Resolve create # acts) s =
     (case getOfflineRepository create s of (p, s1) \<Rightarrow>
        (case laterCalls acts s1 of (ps, s2) \<Rightarrow> (p # ps, s2)))"
| "laterCalls (Replace repos # acts) s = laterCalls acts (setSupportedRepoBuilders repos s)"

text \<open>The adapter class that an entry of the \<open>adapters\<close> list names, if any.\<close>

definition adapterClass :: "string \<Rightarrow> adapter_class option" where
  "adapterClass a =
     (if a = DBAdapter_IndexedDB then Some IndexedDB
      else if a = DBAdapter_LocalStorage then Some LocalStorage
      else if a = DBAdapter_Memory then Some Memory
      else if a = DBAdapter_WebSQL then Some WebSQL
      else None)"

definition listedSupported :: "(adapter_class \<Rightarrow> bool) \<Rightarrow> string list \<Rightarrow> bool" where
  "listedSupported supported as =
     (\<exists>a\<in>set as. case adapterClass a of None \<Rightarrow> False | Some c \<Rightarrow> supported c)"

text \<open>
  The predicate of the query a caller passes: that of the instance, that of the plain
  specification, or every record when no query is passed.
\<close>

definition predicateOf :: "'s world \<Rightarrow> query_arg \<Rightarrow> entity \<Rightarrow> bool" where
  "predicateOf w q =
     (case q of
        QFalsy \<Rightarrow> (\<lambda>_. True)
      | QInstance a \<Rightarrow> q_filter (queries w a)
      | QPlain spec \<Rightarrow> q_filter spec)"

definition idOf :: "entity \<Rightarrow> string" where
  "idOf e = (case getProp e idAttribute of JStr i \<Rightarrow> i | _ \<Rightarrow> [])"

definition hasStringId :: "entity \<Rightarrow> bool" where
  "hasStringId e = (case getProp e idAttribute of JStr i \<Rightarrow> i \<noteq> [] | _ \<Rightarrow> False)"

text \<open>
  The world in which \<open>remove\<close> calls \<open>find\<close>: the caller's world when no query
  is passed, the caller's world with the window of the instance reset, or the caller's
  world with a fresh instance for the plain specification, its window reset.
\<close>

definition queryReady :: "query_arg \<Rightarrow> 's world \<Rightarrow> 's world" where
  "queryReady q w =
     (case q of
        QFalsy \<Rightarrow> w
      | QInstance a \<Rightarrow> resetWindow a w
      | QPlain spec \<Rightarrow> resetWindow (nextQuery w) (snd (newQuery spec w)))"

text \<open>
  The records that \<open>remove\<close> is asked to remove: those of the collection that
  match the predicate of the query.
\<close>

definition matchingRecords :: "'s world \<Rightarrow> query_arg \<Rightarrow> entity list \<Rightarrow> entity list" where
  "matchingRecords w q es = filter (predicateOf w q) es"

text \<open>
  A record whose identifier \<open>removeById\<close> refuses: truthy and not a string.  The
  identifiers that reach the adapter are those of the records that carry a non-empty
  string.
\<close>

definition hasInvalidId :: "entity \<Rightarrow> bool" where
  "hasInvalidId e = (truthy (getProp e idAttribute) \<and> \<not> isString (getProp e idAttribute))"

definition removableIds :: "entity list \<Rightarrow> string list" where
  "removableIds es = map idOf (filter hasStringId es)"

text \<open>
  Following the words of the claim, each removed individually by its identifier: the
  adapter removes the identifiers one after the other on the store; \<open>removals\<close>
  gives what its method returned for each and the store it leaves.
\<close>

fun removals :: "'s adapter \<Rightarrow> jsval \<Rightarrow> string list \<Rightarrow> 's \<Rightarrow> jsval call list \<times> 's" where
  "removals A c [] st = ([], st)"
| "removals A c (i # ids) st =
     (case ad_removeById A c i st of (r, st1) \<Rightarrow>
        (case removals A c ids st1 of (rs, st2) \<Rightarrow> (r # rs, st2)))"

text \<open>
  Following the words of the claim, results collected: one response for each record, in
  order; the response of the adapter for a record with a non-empty string identifier,
  \<open>undefined\<close> for a record that was skipped.
\<close>

fun collected :: "entity list \<Rightarrow> jsval list \<Rightarrow> jsval list" where
  "collected [] vs = []"
| "collected (e # es) vs =
     (if hasStringId e then (case vs of [] \<Rightarrow> [] | v # vs' \<Rightarrow> v # collected es vs')
      else JUndefined # collected es vs)"

text \<open>
  The promises of the removals of some records, given what the adapter's method returned
  for those of them that carry a non-empty string identifier.
\<close>

fun responses :: "entity list \<Rightarrow> jsval call list \<Rightarrow> jsval settling list" where
  "responses [] cs = []"
| "responses (e # es) cs =
     (if hasStringId e then
        (case cs of
           [] \<Rightarrow> []
         | Thrown error # cs' \<Rightarrow> AtOnce (Inl error) # responses es cs'
         | Promised p # cs' \<Rightarrow> Adopted p # responses es cs')
      else if hasInvalidId e then AtOnce (Inl idMustBeString) # responses es cs
      else AtOnce (Inr JUndefined) # responses es cs)"

section \<open>Concrete scenarios\<close>

text \<open>
  The scenarios of the spec for the repository provider: \<open>InMemory\<close> is registered
  and its probe is fulfilled, \<open>Unsupported\<close> is registered and its probe is always
  rejected, \<open>BrowserLocal\<close> is not registered.
\<close>

definition inmemoryRepoBuilder :: "string builder" where
  "inmemoryRepoBuilder q = Inr ''InmemoryOfflineRepository''"

definition unsupportedRepoBuilder :: "string builder" where
  "unsupportedRepoBuilder q = Inr ''UnsupportedRepository''"

definition scenarioCreate :: "string \<Rightarrow> string \<Rightarrow> (string \<times> string) list \<Rightarrow> error + unit" where
  "scenarioCreate repo collection entity =
     (if repo = ''UnsupportedRepository'' then Inl (OtherError ''unsupported'') else Inr ())"

definition scenarioProvider :: "storage_setting \<Rightarrow> string provider" where
  "scenarioProvider setting =
     \<lparr>availableStorages =
        [''InMemory'' \<mapsto> inmemoryRepoBuilder, ''Unsupported'' \<mapsto> unsupportedRepoBuilder],
      chosenRepoPromise = None,
      storage = setting,
      trace = []\<rparr>"

text \<open>
  An in-memory adapter, one table per collection, for evaluating the cache engine at
  concrete inputs.  It signals a missing collection or record by a promise rejected
  with \<open>NotFoundError\<close>.
\<close>

type_synonym tables = "(jsval \<times> entity list) list"

definition table :: "tables \<Rightarrow> jsval \<Rightarrow> entity list" where
  "table st c = (case map_of st c of None \<Rightarrow> [] | Some es \<Rightarrow> es)"

definition hasId :: "string \<Rightarrow> entity \<Rightarrow> bool" where
  "hasId i e = (getProp e idAttribute = JStr i)"

definition memoryAdapter :: "tables adapter" where
  "memoryAdapter =
     \<lparr>ad_find = (\<lambda>c st.
        (case map_of st c of
           None \<Rightarrow> (Promised (Inl (NotFoundError ''collection'')), st)
         | Some es \<Rightarrow> (Promised (Inr es), st))),
      ad_findById = (\<lambda>c i st.
        (case List.find (hasId i) (table st c) of
           None \<Rightarrow> (Promised (Inl (NotFoundError i)), st)
         | Some e \<Rightarrow> (Promised (Inr (JObj e)), st))),
      ad_save = (\<lambda>c es st.
        (Promised (Inr es),
         (c, es @ filter (\<lambda>old. \<forall>e\<in>set es. getProp e idAttribute \<noteq> getProp old idAttribute)
                    (table st c)) # st)),
      ad_removeById = (\<lambda>c i st.
        (case List.find (hasId i) (table st c) of
           None \<Rightarrow> (Promised (Inl (NotFoundError i)), st)
         | Some e \<Rightarrow>
             (Promised (Inr (JObj [(''count'', JNum 1)])),
              (c, filter (\<lambda>old. \<not> hasId i old) (table st c)) # st)))\<rparr>"

text \<open>A platform on which only the \<open>Memory\<close> adapter is supported.\<close>

definition memoryOnly :: "tables platform" where
  "memoryOnly =
     \<lparr>isSupported = (\<lambda>c. c = Memory),
      instantiate = (\<lambda>c name. memoryAdapter),
      aggregate = (\<lambda>spec entities. Inr JNull),
      rejectedFirst = (\<lambda>reasons. 0)\<rparr>"

text \<open>The same platform, with an adapter whose \<open>save\<close> is fulfilled with no records.\<close>

definition savesNothing :: "tables platform" where
  "savesNothing =
     \<lparr>isSupported = (\<lambda>c. c = Memory),
      instantiate = (\<lambda>c name. memoryAdapter\<lparr>ad_save := (\<lambda>c es st. (Promised (Inr []), st))\<rparr>),
      aggregate = (\<lambda>spec entities. Inr JNull),
      rejectedFirst = (\<lambda>reasons. 0)\<rparr>"

definition memoryDb :: db where
  "memoryDb = \<lparr>adapter = Some (New Memory (JStr ''kid''))\<rparr>"

definition someNotes :: "entity list" where
  "someNotes =
     [[(''_id'', JStr ''n1''), (''done'', JBool True)],
      [(''_id'', JStr ''n2''), (''done'', JBool False)],
      [(''_id'', JStr ''n3''), (''done'', JBool True)]]"

definition isDone :: "entity \<Rightarrow> bool" where
  "isDone e = (getProp e ''done'' = JBool True)"

definition firstDone :: query where
  "firstDone = \<lparr>q_filter = isDone, q_sort = None, q_limit = Some 1, q_skip = 0\<rparr>"

definition scenarioWorld :: "tables world" where
  "scenarioWorld =
     \<lparr>store = [(JStr ''notes'', someNotes)],
      invocations = [],
      queries = (\<lambda>a. firstDone),
      nextQuery = 1,
      random = (\<lambda>i. i),
      drawn = 0,
      logged = []\<rparr>"

text \<open>
  A note whose identifier is a number, as the caller gives it and as \<open>save\<close>
  stores it, and the world after it was saved; and a world whose collection
  \<open>drafts\<close> holds a record without identifier.
\<close>

definition numberedNote :: entity where
  "numberedNote = [(''_id'', JNum 5)]"

definition storedNumbered :: entity where
  "storedNumbered = [(''_id'', JNum 5), (''_kmd'', JObj [])]"

definition numberedWorld :: "tables world" where
  "numberedWorld =
     scenarioWorld
       \<lparr>store := [(JStr ''notes'', storedNumbered # someNotes), (JStr ''notes'', someNotes)],
        invocations := [Save (JStr ''notes'') [storedNumbered]]\<rparr>"

definition draftsWorld :: "tables world" where
  "draftsWorld =
     scenarioWorld
       \<lparr>store := [(JStr ''drafts'', [[(''_id'', JStr ''d1'')], [(''title'', JStr ''untitled'')]])]\<rparr>"

definition givenNote :: entity where
  "givenNote = [(''_id'', JStr ''given''), (''text'', JStr ''b'')]"

definition savedNote :: entity where
  "savedNote = [(''_id'', JStr ''given''), (''text'', JStr ''b''), (''_kmd'', JObj [])]"

definition deleteAll :: request where
  "deleteAll =
     \<lparr>method' = DELETE, query = QFalsy, body = BodyUndefined, collectionName = JUndefined,
      entityId = JUndefined, appKey = JStr ''kid'', response = None\<rparr>"

section \<open>Properties of the repository provider\<close>

subsection \<open>One round of the reduce\<close>

lemma supportRound_settled:
  "supportRound create (Inr repo, s) x = (Inr repo, s)"
  by (simp add: supportRound_def)

lemma foldl_supportRound_settled:
  "foldl (supportRound create) (Inr repo, s) xs = (Inr repo, s)"
  by (induction xs) (simp_all add: supportRound_settled)

lemma supportRound_unregistered:
  "availableStorages s u = None \<Longrightarrow>
   supportRound create (Inl e, s) u = (Inl (KinveyError (unavailableMsg u)), s)"
  by (simp add: supportRound_def getRepoForStorageProvider_def)

lemma supportRound_throwing_builder:
  "availableStorages s x = Some b \<Longrightarrow> b queue = Inl e' \<Longrightarrow>
   supportRound create (Inl e, s) x = (Inl e', s\<lparr>trace := trace s @ [Build x]\<rparr>)"
  by (simp add: supportRound_def getRepoForStorageProvider_def)

lemma supportRound_failed_probe:
  "availableStorages s x = Some b \<Longrightarrow> b queue = Inr repo \<Longrightarrow>
   testRepoSupport create repo = Inl e' \<Longrightarrow>
   supportRound create (Inl e, s) x = (Inl e', s\<lparr>trace := trace s @ [Build x, Probe x]\<rparr>)"
  by (simp add: supportRound_def getRepoForStorageProvider_def)

lemma supportRound_passed_probe:
  "availableStorages s x = Some b \<Longrightarrow> b queue = Inr repo \<Longrightarrow>
   testRepoSupport create repo = Inr u \<Longrightarrow>
   supportRound create (Inl e, s) x = (Inr repo, s\<lparr>trace := trace s @ [Build x, Probe x]\<rparr>)"
  by (simp add: supportRound_def getRepoForStorageProvider_def)

text \<open>The four ways a round can go after a rejection.\<close>

lemma supportRound_cases:
  obtains (unregistered) "availableStorages s x = None"
      "supportRound create (Inl e, s) x = (Inl (KinveyError (unavailableMsg x)), s)"
    | (throws) b e' where "availableStorages s x = Some b" "b queue = Inl e'"
      "supportRound create (Inl e, s) x = (Inl e', s\<lparr>trace := trace s @ [Build x]\<rparr>)"
    | (fails) b repo e' where "availableStorages s x = Some b" "b queue = Inr repo"
      "testRepoSupport create repo = Inl e'"
      "supportRound create (Inl e, s) x = (Inl e', s\<lparr>trace := trace s @ [Build x, Probe x]\<rparr>)"
    | (passes) b repo where "availableStorages s x = Some b" "b queue = Inr repo"
      "testRepoSupport create repo = Inr ()"
      "supportRound create (Inl e, s) x = (Inr repo, s\<lparr>trace := trace s @ [Build x, Probe x]\<rparr>)"
proof (cases "availableStorages s x")
  case None
  show ?thesis by (rule unregistered[OF None supportRound_unregistered[OF None]])
next
  case (Some b)
  show ?thesis
  proof (cases "b queue")
    case (Inl e')
    show ?thesis by (rule throws[OF Some Inl supportRound_throwing_builder[OF Some Inl]])
  next
    case (Inr repo)
    show ?thesis
    proof (cases "testRepoSupport create repo")
      case (Inl e')
      show ?thesis by (rule fails[OF Some Inr Inl supportRound_failed_probe[OF Some Inr Inl]])
    next
      case u: (Inr u)
      then have p: "testRepoSupport create repo = Inr ()" by simp
      show ?thesis by (rule passes[OF Some Inr p supportRound_passed_probe[OF Some Inr p]])
    qed
  qed
qed

lemma supportRound_frame:
  "availableStorages (snd (supportRound create acc x)) = availableStorages (snd acc)"
proof (cases acc)
  case (Pair r s)
  show ?thesis
  proof (cases r)
    case (Inr repo)
    then show ?thesis by (simp add: Pair supportRound_settled)
  next
    case (Inl e)
    show ?thesis
      by (rule supportRound_cases[of s x create e]) (simp_all add: Pair Inl)
  qed
qed

lemma foldl_supportRound_frame:
  "availableStorages (snd (foldl (supportRound create) acc xs)) = availableStorages (snd acc)"
  by (induction xs arbitrary: acc) (simp_all add: supportRound_frame)

lemma supportRound_reason:
  "supportRound create (Inl e, s) x = supportRound create (Inl e', s) x"
  by (simp add: supportRound_def)

subsection \<open>The whole resolution\<close>

lemma catchNoneSupported_simps:
  "catchNoneSupported (Inr repo, s) = (Inr repo, s)"
  "catchNoneSupported (Inl e, s) = (Inl (KinveyError noneSupportedMsg), s)"
  by (simp_all add: catchNoneSupported_def)

lemma chooseOfflineRepo_eq:
  "chooseOfflineRepo create s =
     catchNoneSupported (getFirstSupportedRepo create (ensureArray (storage s)) s)"
  by (simp add: chooseOfflineRepo_def getRepoType_def)

lemma catch_foldl_reason:
  "catchNoneSupported (foldl (supportRound create) (Inl e, s) ys) =
   catchNoneSupported (foldl (supportRound create) (Inl e', s) ys)"
proof (cases ys)
  case Nil
  then show ?thesis by (simp add: catchNoneSupported_simps)
next
  case (Cons y ys')
  then show ?thesis using supportRound_reason[of create e s y e'] by simp
qed

lemma skip_unregistered:
  assumes "availableStorages s u = None"
  shows "catchNoneSupported (getFirstSupportedRepo create (xs @ u # ys) s) =
         catchNoneSupported (getFirstSupportedRepo create (xs @ ys) s)"
proof -
  obtain r s1 where acc: "foldl (supportRound create) (Inl NoReason, s) xs = (r, s1)"
    by (cases "foldl (supportRound create) (Inl NoReason, s) xs")
  have av: "availableStorages s1 = availableStorages s"
    using foldl_supportRound_frame[of create "(Inl NoReason, s)" xs] by (simp add: acc)
  show ?thesis
  proof (cases r)
    case (Inr repo)
    then show ?thesis
      by (simp add: getFirstSupportedRepo_def acc supportRound_settled foldl_supportRound_settled)
  next
    case (Inl e)
    have "availableStorages s1 u = None" using assms av by simp
    then have step: "supportRound create (Inl e, s1) u = (Inl (KinveyError (unavailableMsg u)), s1)"
      by (rule supportRound_unregistered)
    have "getFirstSupportedRepo create (xs @ u # ys) s
            = foldl (supportRound create) (Inl (KinveyError (unavailableMsg u)), s1) ys"
      by (simp add: getFirstSupportedRepo_def acc Inl step)
    moreover have "getFirstSupportedRepo create (xs @ ys) s
            = foldl (supportRound create) (Inl e, s1) ys"
      by (simp add: getFirstSupportedRepo_def acc Inl)
    ultimately show ?thesis
      by (simp only: catch_foldl_reason[of create "KinveyError (unavailableMsg u)" s1 ys e])
  qed
qed

lemma unavailableMsg_neq: "unavailableMsg u \<noteq> noneSupportedMsg"
  by (simp add: unavailableMsg_def noneSupportedMsg_def)

lemma catch_not_unavailable:
  "fst (catchNoneSupported acc) \<noteq> Inl (KinveyError (unavailableMsg u))"
proof (cases acc)
  case (Pair r s)
  then show ?thesis
    by (cases r) (simp_all add: catchNoneSupported_simps unavailableMsg_neq[symmetric])
qed

lemma passes_frame:
  "availableStorages s' = availableStorages s \<Longrightarrow> passes create s' x = passes create s x"
  by (simp add: passes_def)

lemma foldl_all_fail:
  "\<forall>x\<in>set xs. \<not> passes create s x \<Longrightarrow>
   \<exists>e' s'. foldl (supportRound create) (Inl e, s) xs = (Inl e', s')"
proof (induction xs arbitrary: e s)
  case Nil
  show ?case by simp
next
  case (Cons x xs)
  have nx: "\<not> passes create s x" using Cons.prems by simp
  have "\<exists>e1 s1. supportRound create (Inl e, s) x = (Inl e1, s1)
          \<and> availableStorages s1 = availableStorages s"
  proof (rule supportRound_cases[of s x create e])
    assume "availableStorages s x = None"
      "supportRound create (Inl e, s) x = (Inl (KinveyError (unavailableMsg x)), s)"
    then show ?thesis by simp
  next
    fix b e'
    assume "supportRound create (Inl e, s) x = (Inl e', s\<lparr>trace := trace s @ [Build x]\<rparr>)"
    then show ?thesis by simp
  next
    fix b repo e'
    assume "supportRound create (Inl e, s) x
              = (Inl e', s\<lparr>trace := trace s @ [Build x, Probe x]\<rparr>)"
    then show ?thesis by simp
  next
    fix b repo
    assume "availableStorages s x = Some b" "b queue = Inr repo"
      "testRepoSupport create repo = Inr ()"
    then have "passes create s x" by (simp add: passes_def)
    with nx show ?thesis by simp
  qed
  then obtain e1 s1 where st: "supportRound create (Inl e, s) x = (Inl e1, s1)"
    and av: "availableStorages s1 = availableStorages s" by blast
  have "\<forall>y\<in>set xs. \<not> passes create s1 y"
    using Cons.prems passes_frame[OF av] by simp
  from Cons.IH[OF this, of e1] show ?case by (simp add: st)
qed

lemma foldl_first_passing:
  "foldl (supportRound create) (Inl e, s) xs = (Inr repo, s') \<Longrightarrow>
   \<exists>ys x zs b. xs = ys @ x # zs \<and> (\<forall>y\<in>set ys. \<not> passes create s y)
      \<and> availableStorages s x = Some b \<and> b queue = Inr repo
      \<and> testRepoSupport create repo = Inr ()"
proof (induction xs arbitrary: e s)
  case Nil
  then show ?case by simp
next
  case (Cons x xs)
  obtain r1 s1 where st: "supportRound create (Inl e, s) x = (r1, s1)"
    by (cases "supportRound create (Inl e, s) x")
  have av: "availableStorages s1 = availableStorages s"
    using supportRound_frame[of create "(Inl e, s)" x] by (simp add: st)
  show ?case
  proof (cases r1)
    case (Inr repo1)
    have same: "repo1 = repo"
      using Cons.prems by (simp add: st Inr foldl_supportRound_settled)
    have "\<exists>b. availableStorages s x = Some b \<and> b queue = Inr repo1
           \<and> testRepoSupport create repo1 = Inr ()"
      by (rule supportRound_cases[of s x create e]) (simp_all add: st Inr)
    then obtain b where "availableStorages s x = Some b" "b queue = Inr repo"
      "testRepoSupport create repo = Inr ()" using same by blast
    then have "x # xs = [] @ x # xs \<and> (\<forall>y\<in>set []. \<not> passes create s y)
      \<and> availableStorages s x = Some b \<and> b queue = Inr repo
      \<and> testRepoSupport create repo = Inr ()" by simp
    then show ?thesis by blast
  next
    case (Inl e1)
    have nx: "\<not> passes create s x"
      by (rule supportRound_cases[of s x create e]) (simp_all add: st Inl passes_def)
    have "foldl (supportRound create) (Inl e1, s1) xs = (Inr repo, s')"
      using Cons.prems by (simp add: st Inl)
    from Cons.IH[OF this] obtain ys y zs b where
      xs: "xs = ys @ y # zs" and ny: "\<forall>y\<in>set ys. \<not> passes create s1 y"
      and b: "availableStorages s1 y = Some b" "b queue = Inr repo"
        "testRepoSupport create repo = Inr ()" by blast
    have "x # xs = (x # ys) @ y # zs" using xs by simp
    moreover have "\<forall>y\<in>set (x # ys). \<not> passes create s y"
      using ny nx passes_frame[OF av] by simp
    moreover have "availableStorages s y = Some b" using b(1) av by simp
    ultimately show ?thesis using b(2,3) by blast
  qed
qed

lemma foldl_passing_fulfils:
  "\<exists>x\<in>set xs. passes create s x \<Longrightarrow>
   \<exists>repo s'. foldl (supportRound create) (Inl e, s) xs = (Inr repo, s')"
proof (induction xs arbitrary: e s)
  case Nil
  then show ?case by simp
next
  case (Cons x xs)
  obtain r1 s1 where st: "supportRound create (Inl e, s) x = (r1, s1)"
    by (cases "supportRound create (Inl e, s) x")
  have av: "availableStorages s1 = availableStorages s"
    using supportRound_frame[of create "(Inl e, s)" x] by (simp add: st)
  show ?case
  proof (cases r1)
    case (Inr repo1)
    then show ?thesis by (simp add: st foldl_supportRound_settled)
  next
    case (Inl e1)
    have nx: "\<not> passes create s x"
      by (rule supportRound_cases[of s x create e]) (simp_all add: st Inl passes_def)
    then have "\<exists>y\<in>set xs. passes create s1 y"
      using Cons.prems passes_frame[OF av] by auto
    from Cons.IH[OF this, of e1] show ?thesis by (simp add: st Inl)
  qed
qed

subsection \<open>What the outcome of a resolution says about the list\<close>

lemma chooseOfflineRepo_all_fail:
  assumes "\<forall>x\<in>set (ensureArray (storage s)). \<not> passes create s x"
  shows "fst (chooseOfflineRepo create s) = Inl (KinveyError noneSupportedMsg)"
proof -
  from foldl_all_fail[OF assms, of NoReason] obtain e' s' where
    "getFirstSupportedRepo create (ensureArray (storage s)) s = (Inl e', s')"
    by (auto simp: getFirstSupportedRepo_def)
  then show ?thesis by (simp add: chooseOfflineRepo_eq catchNoneSupported_simps)
qed

lemma chooseOfflineRepo_rejected:
  assumes "fst (chooseOfflineRepo create s) = Inl e"
  shows "e = KinveyError noneSupportedMsg \<and> (\<forall>x\<in>set (ensureArray (storage s)). \<not> passes create s x)"
proof -
  obtain r s' where g: "getFirstSupportedRepo create (ensureArray (storage s)) s = (r, s')"
    by (cases "getFirstSupportedRepo create (ensureArray (storage s)) s")
  show ?thesis
  proof (cases r)
    case (Inr repo)
    with assms g show ?thesis by (simp add: chooseOfflineRepo_eq catchNoneSupported_simps)
  next
    case (Inl e0)
    with assms g have e: "e = KinveyError noneSupportedMsg"
      by (simp add: chooseOfflineRepo_eq catchNoneSupported_simps)
    have "\<not> (\<exists>x\<in>set (ensureArray (storage s)). passes create s x)"
    proof
      assume "\<exists>x\<in>set (ensureArray (storage s)). passes create s x"
      from foldl_passing_fulfils[OF this, of NoReason] g Inl show False
        by (simp add: getFirstSupportedRepo_def)
    qed
    with e show ?thesis by simp
  qed
qed

lemma chooseOfflineRepo_fulfilled:
  assumes "fst (chooseOfflineRepo create s) = Inr repo"
  shows "\<exists>ys x zs b. ensureArray (storage s) = ys @ x # zs
           \<and> (\<forall>y\<in>set ys. \<not> passes create s y)
           \<and> availableStorages s x = Some b \<and> b queue = Inr repo
           \<and> testRepoSupport create repo = Inr ()"
proof -
  obtain r s' where g: "getFirstSupportedRepo create (ensureArray (storage s)) s = (r, s')"
    by (cases "getFirstSupportedRepo create (ensureArray (storage s)) s")
  show ?thesis
  proof (cases r)
    case (Inl e0)
    with assms g show ?thesis by (simp add: chooseOfflineRepo_eq catchNoneSupported_simps)
  next
    case (Inr repo')
    with assms g have "repo' = repo" by (simp add: chooseOfflineRepo_eq catchNoneSupported_simps)
    with g Inr have "foldl (supportRound create) (Inl NoReason, s) (ensureArray (storage s))
                       = (Inr repo, s')"
      by (simp add: getFirstSupportedRepo_def)
    then show ?thesis by (rule foldl_first_passing)
  qed
qed

subsection \<open>Memoization\<close>

lemma getOfflineRepository_memo:
  assumes "getOfflineRepository create s = (p, s1)"
  shows "chosenRepoPromise s1 = Some p"
proof (cases "chosenRepoPromise s")
  case None
  obtain p' s' where c: "chooseOfflineRepo create s = (p', s')"
    by (cases "chooseOfflineRepo create s")
  with assms None show ?thesis by (auto simp add: getOfflineRepository_def)
next
  case (Some p0)
  with assms show ?thesis by (auto simp add: getOfflineRepository_def)
qed

lemma getOfflineRepository_cached:
  "chosenRepoPromise s = Some p \<Longrightarrow> getOfflineRepository create s = (p, s)"
  by (simp add: getOfflineRepository_def)

lemma laterCalls_cached:
  "chosenRepoPromise s = Some p \<Longrightarrow>
   set (fst (laterCalls acts s)) \<subseteq> {p}
   \<and> trace (snd (laterCalls acts s)) = trace s
   \<and> chosenRepoPromise (snd (laterCalls acts s)) = Some p"
proof (induction acts arbitrary: s)
  case Nil
  then show ?case by simp
next
  case (Cons a acts)
  show ?case
  proof (cases a)
    case (Resolve create)
    have g: "getOfflineRepository create s = (p, s)"
      using Cons.prems by (rule getOfflineRepository_cached)
    obtain ps s2 where l: "laterCalls acts s = (ps, s2)" by (cases "laterCalls acts s")
    from Cons.IH[OF Cons.prems] l show ?thesis by (simp add: Resolve g)
  next
    case (Replace repos)
    have c: "chosenRepoPromise (setSupportedRepoBuilders repos s) = Some p"
      using Cons.prems by (simp add: setSupportedRepoBuilders_def)
    have t: "trace (setSupportedRepoBuilders repos s) = trace s"
      by (simp add: setSupportedRepoBuilders_def)
    from Cons.IH[OF c] t show ?thesis by (simp add: Replace)
  qed
qed

subsection \<open>The scenarios of the provider, evaluated\<close>

lemma scenario_browserLocal_unregistered:
  "availableStorages (scenarioProvider setting) ''BrowserLocal'' = None"
  by (simp add: scenarioProvider_def)

lemma scenario_browserLocal_then_inMemory:
  "chooseOfflineRepo scenarioCreate (scenarioProvider (Many [''BrowserLocal'', ''InMemory'']))
     = (Inr ''InmemoryOfflineRepository'',
        (scenarioProvider (Many [''BrowserLocal'', ''InMemory'']))
          \<lparr>trace := [Build ''InMemory'', Probe ''InMemory'']\<rparr>)"
  by (simp add: chooseOfflineRepo_def getRepoType_def getFirstSupportedRepo_def
      supportRound_def getRepoForStorageProvider_def testRepoSupport_def
      catchNoneSupported_def scenarioProvider_def scenarioCreate_def inmemoryRepoBuilder_def)

lemma scenario_unsupported_fails:
  "\<not> passes scenarioCreate (scenarioProvider setting) ''Unsupported''"
  by (simp add: passes_def scenarioProvider_def scenarioCreate_def unsupportedRepoBuilder_def
      testRepoSupport_def)

lemma scenario_inMemory_resolves:
  "getOfflineRepository scenarioCreate (scenarioProvider (One ''InMemory''))
     = (Inr ''InmemoryOfflineRepository'',
        (scenarioProvider (One ''InMemory''))
          \<lparr>chosenRepoPromise := Some (Inr ''InmemoryOfflineRepository''),
           trace := [Build ''InMemory'', Probe ''InMemory'']\<rparr>)"
  by (simp add: getOfflineRepository_def chooseOfflineRepo_def getRepoType_def
      getFirstSupportedRepo_def supportRound_def getRepoForStorageProvider_def
      testRepoSupport_def catchNoneSupported_def scenarioProvider_def scenarioCreate_def
      inmemoryRepoBuilder_def)

subsection \<open>Claims about the repository provider\<close>

text \<open>
  Claim C1, as stated, says that an identifier without a registered builder makes the
  resolution fail at once with the error naming it, and that later identifiers are not
  tried.  The spec's own scenario refutes this on the code: with the priority list
  \<open>BrowserLocal, InMemory\<close> and \<open>BrowserLocal\<close> unregistered, the resolution
  is fulfilled with the in-memory repository, which was built and probed.
\<close>

theorem C1_unregistered_then_registered_resolves:
  "availableStorages (scenarioProvider (Many [''BrowserLocal'', ''InMemory''])) ''BrowserLocal''
     = None
   \<and> fst (chooseOfflineRepo scenarioCreate
            (scenarioProvider (Many [''BrowserLocal'', ''InMemory''])))
     = Inr ''InmemoryOfflineRepository''
   \<and> trace (snd (chooseOfflineRepo scenarioCreate
            (scenarioProvider (Many [''BrowserLocal'', ''InMemory'']))))
     = [Build ''InMemory'', Probe ''InMemory'']"
  by (simp add: scenario_browserLocal_unregistered scenario_browserLocal_then_inMemory)

text \<open>
  Claim C1, amended: an identifier of the priority list that has no registered builder
  is skipped.  The error naming it rejects that round only; the resolution goes on
  with the next identifier and ends exactly as the resolution of the list without
  that identifier does (same outcome, same builders invoked, same probes).  The error
  naming the identifier is never the outcome of the resolution; if no identifier of the
  list passes, the outcome is the error saying that none of the selected storage
  providers is supported.
\<close>

theorem C1_unregistered_identifier_is_skipped:
  assumes "availableStorages s u = None"
    and "ensureArray (storage s) = xs @ u # ys"
  shows "chooseOfflineRepo create s
           = catchNoneSupported (getFirstSupportedRepo create (xs @ ys) s)
         \<and> fst (chooseOfflineRepo create s) \<noteq> Inl (KinveyError (unavailableMsg u))
         \<and> ((\<forall>x\<in>set (ensureArray (storage s)). \<not> passes create s x) \<longrightarrow>
              fst (chooseOfflineRepo create s) = Inl (KinveyError noneSupportedMsg))"
proof -
  have "chooseOfflineRepo create s
          = catchNoneSupported (getFirstSupportedRepo create (xs @ u # ys) s)"
    by (simp add: chooseOfflineRepo_eq assms(2))
  then have "chooseOfflineRepo create s
          = catchNoneSupported (getFirstSupportedRepo create (xs @ ys) s)"
    by (simp only: skip_unregistered[OF assms(1)])
  moreover have "fst (chooseOfflineRepo create s) \<noteq> Inl (KinveyError (unavailableMsg u))"
    by (simp only: chooseOfflineRepo_eq catch_not_unavailable not_False_eq_True)
  moreover have "(\<forall>x\<in>set (ensureArray (storage s)). \<not> passes create s x) \<longrightarrow>
      fst (chooseOfflineRepo create s) = Inl (KinveyError noneSupportedMsg)"
    using chooseOfflineRepo_all_fail[of s create] by (rule impI)
  ultimately show ?thesis by (intro conjI)
qed

theorem C1_unregistered_identifier_is_skipped_witness:
  "availableStorages (scenarioProvider (Many [''BrowserLocal'', ''InMemory''])) ''BrowserLocal''
     = None
   \<and> ensureArray (storage (scenarioProvider (Many [''BrowserLocal'', ''InMemory''])))
     = [] @ ''BrowserLocal'' # [''InMemory'']
   \<and> chooseOfflineRepo scenarioCreate (scenarioProvider (Many [''BrowserLocal'', ''InMemory'']))
     = catchNoneSupported
         (getFirstSupportedRepo scenarioCreate ([] @ [''InMemory''])
            (scenarioProvider (Many [''BrowserLocal'', ''InMemory''])))
   \<and> fst (chooseOfflineRepo scenarioCreate
            (scenarioProvider (Many [''BrowserLocal'', ''InMemory''])))
     \<noteq> Inl (KinveyError (unavailableMsg ''BrowserLocal''))
   \<and> \<not> passes scenarioCreate (scenarioProvider (Many [''BrowserLocal'', ''Unsupported'']))
         ''BrowserLocal''
   \<and> \<not> passes scenarioCreate (scenarioProvider (Many [''BrowserLocal'', ''Unsupported'']))
         ''Unsupported''
   \<and> fst (chooseOfflineRepo scenarioCreate
            (scenarioProvider (Many [''BrowserLocal'', ''Unsupported''])))
     = Inl (KinveyError noneSupportedMsg)"
proof -
  have h1: "availableStorages (scenarioProvider (Many [''BrowserLocal'', ''InMemory'']))
              ''BrowserLocal'' = None"
    by (rule scenario_browserLocal_unregistered)
  have h2: "ensureArray (storage (scenarioProvider (Many [''BrowserLocal'', ''InMemory''])))
              = [] @ ''BrowserLocal'' # [''InMemory'']"
    by (simp add: scenarioProvider_def)
  note t = C1_unregistered_identifier_is_skipped[OF h1 h2, of scenarioCreate]
  have g1: "availableStorages (scenarioProvider (Many [''BrowserLocal'', ''Unsupported'']))
              ''BrowserLocal'' = None"
    by (rule scenario_browserLocal_unregistered)
  have g2: "ensureArray (storage (scenarioProvider (Many [''BrowserLocal'', ''Unsupported''])))
              = [] @ ''BrowserLocal'' # [''Unsupported'']"
    by (simp add: scenarioProvider_def)
  have f1: "\<not> passes scenarioCreate (scenarioProvider (Many [''BrowserLocal'', ''Unsupported'']))
              ''BrowserLocal''"
    by (simp add: passes_def g1)
  have f2: "\<not> passes scenarioCreate (scenarioProvider (Many [''BrowserLocal'', ''Unsupported'']))
              ''Unsupported''"
    by (rule scenario_unsupported_fails)
  have f: "\<forall>x\<in>set (ensureArray (storage (scenarioProvider
              (Many [''BrowserLocal'', ''Unsupported''])))).
             \<not> passes scenarioCreate (scenarioProvider (Many [''BrowserLocal'', ''Unsupported''])) x"
    using f1 f2 by (simp add: g2)
  note u = C1_unregistered_identifier_is_skipped[OF g1 g2, of scenarioCreate]
  show ?thesis
    by (intro conjI) (rule h1, rule h2, rule conjunct1[OF t], rule conjunct1[OF conjunct2[OF t]],
      rule f1, rule f2, rule mp[OF conjunct2[OF conjunct2[OF u]] f])
qed

text \<open>
  Claim C4: provider resolution is memoized.  Whatever the first call of
  \<open>getOfflineRepository\<close> returns, every later call returns the same outcome and
  changes nothing: no builder is invoked and no probe is made (the trace is part of
  the state, which is unchanged), also after \<open>setSupportedRepoBuilders\<close> has replaced
  the mapping, and whatever the probes would now answer.  The same holds for every
  sequence of later calls and replacements.
\<close>

theorem C4_resolution_is_memoized:
  assumes "getOfflineRepository create s = (p, s1)"
  shows "getOfflineRepository create' s1 = (p, s1)
       \<and> getOfflineRepository create' (setSupportedRepoBuilders repos s1)
           = (p, setSupportedRepoBuilders repos s1)
       \<and> set (fst (laterCalls acts s1)) \<subseteq> {p}
       \<and> trace (snd (laterCalls acts s1)) = trace s1"
proof -
  have memo: "chosenRepoPromise s1 = Some p"
    using assms by (rule getOfflineRepository_memo)
  then have "chosenRepoPromise (setSupportedRepoBuilders repos s1) = Some p"
    by (simp add: setSupportedRepoBuilders_def)
  then have "getOfflineRepository create' (setSupportedRepoBuilders repos s1)
               = (p, setSupportedRepoBuilders repos s1)"
    by (rule getOfflineRepository_cached)
  moreover have "getOfflineRepository create' s1 = (p, s1)"
    using memo by (rule getOfflineRepository_cached)
  ultimately show ?thesis using laterCalls_cached[OF memo, of acts] by simp
qed

theorem C4_resolution_is_memoized_witness:
  "getOfflineRepository scenarioCreate (scenarioProvider (One ''InMemory''))
     = (Inr ''InmemoryOfflineRepository'',
        (scenarioProvider (One ''InMemory''))
          \<lparr>chosenRepoPromise := Some (Inr ''InmemoryOfflineRepository''),
           trace := [Build ''InMemory'', Probe ''InMemory'']\<rparr>)
   \<and> fst (getOfflineRepository scenarioCreate
        (setSupportedRepoBuilders Map.empty
           ((scenarioProvider (One ''InMemory''))
              \<lparr>chosenRepoPromise := Some (Inr ''InmemoryOfflineRepository''),
               trace := [Build ''InMemory'', Probe ''InMemory'']\<rparr>)))
     = Inr ''InmemoryOfflineRepository''
   \<and> trace (snd (laterCalls [Replace Map.empty, Resolve scenarioCreate, Resolve scenarioCreate]
           ((scenarioProvider (One ''InMemory''))
              \<lparr>chosenRepoPromise := Some (Inr ''InmemoryOfflineRepository''),
               trace := [Build ''InMemory'', Probe ''InMemory'']\<rparr>)))
     = [Build ''InMemory'', Probe ''InMemory'']"
  using C4_resolution_is_memoized[OF scenario_inMemory_resolves, of scenarioCreate Map.empty
      "[Replace Map.empty, Resolve scenarioCreate, Resolve scenarioCreate]"]
    scenario_inMemory_resolves
  by (simp add: setSupportedRepoBuilders_def)

section \<open>Properties of the cache engine\<close>

subsection \<open>What the adapter invocations leave alone\<close>

lemma adapter_find_queries:
  "queries (snd (adapter_find P this c w)) = queries w"
  by (simp add: adapter_find_def split: option.split adapter_instance.split prod.split)

lemma adapter_removeById_queries:
  "queries (snd (adapter_removeById P this c i w)) = queries w"
  by (simp add: adapter_removeById_def split: option.split adapter_instance.split prod.split)

text \<open>The adapter does not read the heap of queries.\<close>

lemma adapter_find_heap:
  "adapter_find P this c (w\<lparr>queries := qs, nextQuery := n\<rparr>) =
     (fst (adapter_find P this c w), (snd (adapter_find P this c w))\<lparr>queries := qs, nextQuery := n\<rparr>)"
  by (simp add: adapter_find_def split: option.split adapter_instance.split prod.split)

lemma adapter_find_invocations:
  "adapter this = Some inst \<Longrightarrow>
   invocations (snd (adapter_find P this c w)) = invocations w @ [Find c]"
  by (simp add: adapter_find_def split: adapter_instance.split prod.split)

lemma query_process_empty: "query_process q [] = []"
  by (simp add: query_process_def split: option.split)

lemma query_process_reset:
  "query_process (q\<lparr>q_sort := None, q_limit := None, q_skip := 0\<rparr>) es = filter (q_filter q) es"
  by (simp add: query_process_def)

subsection \<open>find and count\<close>

lemma DB_find_instance:
  "DB_find P this c (QInstance a) w =
     (case await (fst (adapter_find P this c w)) of
        Inl error \<Rightarrow> (if isNotFoundError error then Inr [] else Inl error)
      | Inr entities \<Rightarrow> Inr (query_process (queries w a) entities),
      snd (adapter_find P this c w))"
proof -
  obtain r w1 where af: "adapter_find P this c w = (r, w1)"
    by (cases "adapter_find P this c w")
  have q: "queries w1 = queries w" using adapter_find_queries[of P this c w] by (simp add: af)
  show ?thesis
  proof (cases "await r")
    case (Inl e)
    then show ?thesis by (simp add: DB_find_def af)
  next
    case (Inr es)
    then show ?thesis by (cases es) (simp_all add: DB_find_def af q query_process_empty)
  qed
qed

lemma DB_find_falsy:
  "DB_find P this c QFalsy w =
     (case await (fst (adapter_find P this c w)) of
        Inl error \<Rightarrow> (if isNotFoundError error then Inr [] else Inl error)
      | Inr entities \<Rightarrow> Inr entities,
      snd (adapter_find P this c w))"
proof -
  obtain r w1 where af: "adapter_find P this c w = (r, w1)"
    by (cases "adapter_find P this c w")
  show ?thesis by (cases "await r") (simp_all add: DB_find_def af)
qed

lemma DB_find_instance_queries:
  "queries (snd (DB_find P this c (QInstance a) w)) = queries w"
  by (simp add: DB_find_instance adapter_find_queries)

lemma DB_count_instance_queries:
  "queries (snd (DB_count P this c (QInstance a) w)) = queries w"
proof -
  obtain r w1 where f: "DB_find P this c (QInstance a) w = (r, w1)"
    by (cases "DB_find P this c (QInstance a) w")
  have "queries w1 = queries w" using DB_find_instance_queries[of P this c a w] by (simp add: f)
  then show ?thesis by (cases r) (simp_all add: DB_count_def f)
qed

text \<open>A \<open>NotFoundError\<close> of the adapter's \<open>find\<close>, thrown or rejected, gives the empty sequence.\<close>

lemma DB_find_not_found:
  assumes "await (fst (adapter_find P this c w)) = Inl (NotFoundError m)"
  shows "fst (DB_find P this c q w) = Inr []"
proof -
  obtain r w1 where af: "adapter_find P this c w = (r, w1)"
    by (cases "adapter_find P this c w")
  with assms have "await r = Inl (NotFoundError m)" by simp
  then show ?thesis by (simp add: DB_find_def af)
qed

subsection \<open>removeById and remove\<close>

lemma DB_removeById_queries:
  "queries (snd (DB_removeById P this c i w)) = queries w"
proof (cases "truthy i")
  case False
  then show ?thesis by (simp add: DB_removeById_def)
next
  case True
  show ?thesis
  proof (cases i)
    case (JStr x)
    obtain r w1 where ar: "adapter_removeById P this c x w = (r, w1)"
      by (cases "adapter_removeById P this c x w")
    have "queries w1 = queries w" using adapter_removeById_queries[of P this c x w] by (simp add: ar)
    then show ?thesis using True by (simp add: DB_removeById_def JStr ar)
  qed (use True in \<open>simp_all add: DB_removeById_def\<close>)
qed

lemma removeById_promise_outcome:
  "DB_removeById P this c i w
     = (outcomeOf (fst (removeById_promise P this c i w)), snd (removeById_promise P this c i w))"
proof (cases "truthy i")
  case False
  then show ?thesis by (simp add: DB_removeById_def removeById_promise_def)
next
  case True
  show ?thesis
  proof (cases i)
    case (JStr x)
    obtain r w1 where ar: "adapter_removeById P this c x w = (r, w1)"
      by (cases "adapter_removeById P this c x w")
    show ?thesis using True
      by (cases r) (simp_all add: DB_removeById_def removeById_promise_def JStr ar)
  qed (use True in \<open>simp_all add: DB_removeById_def removeById_promise_def\<close>)
qed

lemma removeById_promise_queries:
  "queries (snd (removeById_promise P this c i w)) = queries w"
  using DB_removeById_queries[of P this c i w] by (simp add: removeById_promise_outcome)

lemma removeEach_queries:
  "queries (snd (removeEach P this c es w)) = queries w"
proof (induction es arbitrary: w)
  case Nil
  show ?case by simp
next
  case (Cons e es)
  obtain r w1 where r: "removeById_promise P this c (getProp e idAttribute) w = (r, w1)"
    by (cases "removeById_promise P this c (getProp e idAttribute) w")
  obtain rs w2 where rs: "removeEach P this c es w1 = (rs, w2)"
    by (cases "removeEach P this c es w1")
  have "queries w1 = queries w"
    using removeById_promise_queries[of P this c "getProp e idAttribute" w] by (simp add: r)
  moreover have "queries w2 = queries w1" using Cons.IH[of w1] by (simp add: rs)
  ultimately show ?case by (simp add: r rs)
qed

lemma foldl_snoc: "foldl (\<lambda>entities entity. entities @ [entity]) acc rs = acc @ rs"
  by (induction rs arbitrary: acc) simp_all

lemma DB_remove_unfold:
  "DB_remove P this c q w =
     (case DB_find P this c (case q of QPlain spec \<Rightarrow> QInstance (nextQuery w) | _ \<Rightarrow> q)
             (queryReady q w) of
        (Inl error, w3) \<Rightarrow> (Inl error, w3)
      | (Inr entities, w3) \<Rightarrow>
          (promiseAll (rejectedFirst P) (fst (removeEach P this c entities w3)),
           snd (removeEach P this c entities w3)))"
  by (cases q)
    (simp_all add: DB_remove_def queryReady_def newQuery_def foldl_snoc
      split: prod.split sum.split)

lemma queryReady_heap:
  "queryReady q w = w\<lparr>queries := queries (queryReady q w), nextQuery := nextQuery (queryReady q w)\<rparr>"
  by (cases q) (simp_all add: queryReady_def resetWindow_def newQuery_def)

lemma DB_find_ready:
  assumes "adapter_find P this c w = (r, w1)" "await r = Inr es"
  shows "DB_find P this c (case q of QPlain spec \<Rightarrow> QInstance (nextQuery w) | _ \<Rightarrow> q)
           (queryReady q w)
         = (Inr (filter (predicateOf w q) es),
            w1\<lparr>queries := queries (queryReady q w), nextQuery := nextQuery (queryReady q w)\<rparr>)"
proof -
  have af: "adapter_find P this c (queryReady q w)
              = (r, w1\<lparr>queries := queries (queryReady q w), nextQuery := nextQuery (queryReady q w)\<rparr>)"
    using adapter_find_heap[where P = P and this = this and c = c and w = w
          and qs = "queries (queryReady q w)" and n = "nextQuery (queryReady q w)"]
      queryReady_heap[of q w] assms(1) by simp
  show ?thesis
  proof (cases q)
    case QFalsy
    then show ?thesis using af assms(2) by (simp add: DB_find_falsy predicateOf_def)
  next
    case (QInstance a)
    have "query_process (queries (queryReady q w) a) es = filter (q_filter (queries w a)) es"
      by (simp add: QInstance queryReady_def resetWindow_def query_process_reset)
    then show ?thesis using af assms(2) QInstance by (simp add: DB_find_instance predicateOf_def)
  next
    case (QPlain spec)
    have "query_process (queries (queryReady q w) (nextQuery w)) es = filter (q_filter spec) es"
      by (simp add: QPlain queryReady_def resetWindow_def newQuery_def query_process_reset)
    then show ?thesis using af assms(2) QPlain by (simp add: DB_find_instance predicateOf_def)
  qed
qed

subsection \<open>What remove does to the matching records\<close>

lemma adapter_find_eq:
  assumes "adapter this = Some (New cl name)"
    and "ad_find (instantiate P cl name) c (store w) = (r, st)"
  shows "adapter_find P this c w
           = (r, w\<lparr>store := st, invocations := invocations w @ [Find c]\<rparr>)"
  using assms by (simp add: adapter_find_def)

lemma hasStringId_getProp:
  "hasStringId e \<Longrightarrow> getProp e idAttribute = JStr (idOf e) \<and> idOf e \<noteq> []"
  by (auto simp: hasStringId_def idOf_def split: jsval.splits)

lemma removeById_promise_string:
  assumes "adapter this = Some (New cl name)" and "hasStringId e"
    and "ad_removeById (instantiate P cl name) c (idOf e) (store w) = (r, st)"
  shows "removeById_promise P this c (getProp e idAttribute) w
           = ((case r of Thrown error \<Rightarrow> AtOnce (Inl error) | Promised p \<Rightarrow> Adopted p),
              w\<lparr>store := st, invocations := invocations w @ [RemoveById c (idOf e)]\<rparr>)"
  using assms(1,3) hasStringId_getProp[OF assms(2)]
  by (cases r) (simp_all add: removeById_promise_def adapter_removeById_def)

lemma removeById_promise_other:
  assumes "\<not> hasStringId e"
  shows "removeById_promise P this c (getProp e idAttribute) w
           = (if hasInvalidId e then AtOnce (Inl idMustBeString) else AtOnce (Inr JUndefined), w)"
  using assms
  by (cases "getProp e idAttribute")
    (simp_all add: removeById_promise_def hasStringId_def hasInvalidId_def)

lemma removableIds_Cons:
  "removableIds (e # es) = (if hasStringId e then idOf e # removableIds es else removableIds es)"
  by (simp add: removableIds_def)

lemma removeEach_spec:
  assumes "adapter this = Some (New cl name)"
  shows "removeEach P this c es w
           = (responses es (fst (removals (instantiate P cl name) c (removableIds es) (store w))),
              w\<lparr>store := snd (removals (instantiate P cl name) c (removableIds es) (store w)),
                invocations := invocations w @ map (RemoveById c) (removableIds es)\<rparr>)"
proof (induction es arbitrary: w)
  case Nil
  show ?case by (simp add: removableIds_def)
next
  case (Cons e es)
  let ?A = "instantiate P cl name"
  show ?case
  proof (cases "hasStringId e")
    case True
    obtain r st where ar: "ad_removeById ?A c (idOf e) (store w) = (r, st)"
      by (cases "ad_removeById ?A c (idOf e) (store w)")
    let ?w1 = "w\<lparr>store := st, invocations := invocations w @ [RemoveById c (idOf e)]\<rparr>"
    obtain rs st2 where rm: "removals ?A c (removableIds es) st = (rs, st2)"
      by (cases "removals ?A c (removableIds es) st")
    have ih: "removeEach P this c es ?w1
                = (responses es rs,
                   ?w1\<lparr>store := st2,
                       invocations := invocations ?w1 @ map (RemoveById c) (removableIds es)\<rparr>)"
      using Cons.IH[of ?w1] by (simp add: rm)
    show ?thesis
      by (cases r)
        (simp_all add: removeById_promise_string[OF assms True ar] ih removableIds_Cons True ar rm)
  next
    case False
    show ?thesis
      by (simp add: removeById_promise_other[OF False] Cons.IH removableIds_Cons False)
  qed
qed

lemma removals_length: "length (fst (removals A c ids st)) = length ids"
proof (induction ids arbitrary: st)
  case Nil
  show ?case by simp
next
  case (Cons i ids)
  obtain r st1 where a: "ad_removeById A c i st = (r, st1)" by (cases "ad_removeById A c i st")
  obtain rs st2 where b: "removals A c ids st1 = (rs, st2)" by (cases "removals A c ids st1")
  show ?case using Cons.IH[of st1] by (simp add: a b)
qed

lemma rejectedAtOnce_set: "(e \<in> set (rejectedAtOnce ps)) = (AtOnce (Inl e) \<in> set ps)"
  by (induction ps rule: rejectedAtOnce.induct) auto

lemma rejectedLater_set: "(e \<in> set (rejectedLater ps)) = (Adopted (Inl e) \<in> set ps)"
  by (induction ps rule: rejectedLater.induct) auto

lemma promiseAll_atOnce: "rejectedAtOnce ps = e # es \<Longrightarrow> promiseAll first ps = Inl e"
  by (simp add: promiseAll_def)

lemma promiseAll_fulfilled:
  "rejectedAtOnce ps = [] \<Longrightarrow> rejectedLater ps = [] \<Longrightarrow> promiseAll first ps = Inr (fulfilled ps)"
  by (simp add: promiseAll_def)

lemma promiseAll_rejected:
  assumes "rejectedAtOnce ps \<noteq> [] \<or> rejectedLater ps \<noteq> []"
  shows "\<exists>e. promiseAll first ps = Inl e
            \<and> (e \<in> set (rejectedAtOnce ps) \<or> e \<in> set (rejectedLater ps))"
proof (cases "rejectedAtOnce ps")
  case (Cons e es)
  then show ?thesis by (simp add: promiseAll_def)
next
  case Nil
  with assms obtain e es where l: "rejectedLater ps = e # es" by (cases "rejectedLater ps") auto
  have "first (e # es) mod length (e # es) < length (e # es)" by simp
  then have "(e # es) ! (first (e # es) mod length (e # es)) \<in> set (e # es)"
    by (rule nth_mem)
  then show ?thesis by (simp add: promiseAll_def Nil l)
qed

lemma responses_fulfilled:
  "\<forall>e\<in>set es. \<not> hasInvalidId e \<Longrightarrow>
   rejectedAtOnce (responses es (map (\<lambda>v. Promised (Inr v)) vs)) = []
   \<and> rejectedLater (responses es (map (\<lambda>v. Promised (Inr v)) vs)) = []
   \<and> fulfilled (responses es (map (\<lambda>v. Promised (Inr v)) vs)) = collected es vs"
proof (induction es arbitrary: vs)
  case Nil
  show ?case by simp
next
  case (Cons e es)
  have ni: "\<not> hasInvalidId e" and rest: "\<forall>e\<in>set es. \<not> hasInvalidId e"
    using Cons.prems by simp_all
  show ?case
  proof (cases "hasStringId e")
    case True
    show ?thesis
    proof (cases vs)
      case Nil
      then show ?thesis using True by simp
    next
      case (Cons v vs')
      then show ?thesis using True Cons.IH[OF rest, of vs'] by simp
    qed
  next
    case False
    then show ?thesis using ni Cons.IH[OF rest, of vs] by simp
  qed
qed

lemma responses_atOnce:
  "AtOnce (Inl x) \<in> set (responses es cs) \<Longrightarrow>
   (x = idMustBeString \<and> (\<exists>e\<in>set es. hasInvalidId e)) \<or> Thrown x \<in> set cs"
proof (induction es arbitrary: cs)
  case Nil
  then show ?case by simp
next
  case (Cons e es)
  show ?case
  proof (cases "hasStringId e")
    case True
    show ?thesis
    proof (cases cs)
      case Nil
      with Cons.prems True show ?thesis by simp
    next
      case c: (Cons p cs')
      show ?thesis
      proof (cases p)
        case (Thrown y)
        with Cons.prems True c have "x = y \<or> AtOnce (Inl x) \<in> set (responses es cs')" by auto
        then show ?thesis using Cons.IH[of cs'] c Thrown by auto
      next
        case (Promised q)
        with Cons.prems True c have "AtOnce (Inl x) \<in> set (responses es cs')" by auto
        then show ?thesis using Cons.IH[of cs'] c by auto
      qed
    qed
  next
    case False
    show ?thesis
    proof (cases "hasInvalidId e")
      case True
      with Cons.prems False
      have "x = idMustBeString \<or> AtOnce (Inl x) \<in> set (responses es cs)" by auto
      then show ?thesis using Cons.IH[of cs] True by auto
    next
      case f: False
      with Cons.prems False have "AtOnce (Inl x) \<in> set (responses es cs)" by auto
      then show ?thesis using Cons.IH[of cs] by auto
    qed
  qed
qed

lemma responses_adopted:
  "Adopted p \<in> set (responses es cs) \<Longrightarrow> Promised p \<in> set cs"
proof (induction es arbitrary: cs)
  case Nil
  then show ?case by simp
next
  case (Cons e es)
  show ?case
  proof (cases "hasStringId e")
    case True
    show ?thesis
    proof (cases cs)
      case Nil
      with Cons.prems True show ?thesis by simp
    next
      case c: (Cons q cs')
      show ?thesis
      proof (cases q)
        case (Thrown y)
        with Cons.prems True c have "Adopted p \<in> set (responses es cs')" by auto
        then show ?thesis using Cons.IH[of cs'] c by auto
      next
        case (Promised q')
        with Cons.prems True c have "p = q' \<or> Adopted p \<in> set (responses es cs')" by auto
        then show ?thesis using Cons.IH[of cs'] c Promised by auto
      qed
    qed
  next
    case False
    with Cons.prems have "Adopted p \<in> set (responses es cs)" by (auto split: if_splits)
    then show ?thesis using Cons.IH[of cs] by auto
  qed
qed

lemma responses_complete:
  "length cs = length (removableIds es) \<Longrightarrow>
   ((\<exists>e\<in>set es. hasInvalidId e) \<longrightarrow> AtOnce (Inl idMustBeString) \<in> set (responses es cs))
   \<and> (\<forall>x. Thrown x \<in> set cs \<longrightarrow> AtOnce (Inl x) \<in> set (responses es cs))
   \<and> (\<forall>p. Promised p \<in> set cs \<longrightarrow> Adopted p \<in> set (responses es cs))"
proof (induction es arbitrary: cs)
  case Nil
  then show ?case by (simp add: removableIds_def)
next
  case (Cons e es)
  show ?case
  proof (cases "hasStringId e")
    case True
    then have ni: "\<not> hasInvalidId e"
      by (auto simp: hasStringId_def hasInvalidId_def split: jsval.splits)
    from Cons.prems True obtain q cs' where c: "cs = q # cs'"
      and l: "length cs' = length (removableIds es)"
      by (cases cs) (simp_all add: removableIds_Cons)
    from Cons.IH[OF l] show ?thesis using True ni c by (cases q) auto
  next
    case False
    with Cons.prems have l: "length cs = length (removableIds es)"
      by (simp add: removableIds_Cons)
    from Cons.IH[OF l] show ?thesis using False by auto
  qed
qed

lemma remove_spec:
  assumes "adapter this = Some (New cl name)"
    and "ad_find (instantiate P cl name) c (store w) = (r, st)"
    and "await r = Inr es"
  shows "DB_remove P this c q w
           = (promiseAll (rejectedFirst P)
                (responses (matchingRecords w q es)
                   (fst (removals (instantiate P cl name) c
                           (removableIds (matchingRecords w q es)) st))),
              w\<lparr>store := snd (removals (instantiate P cl name) c
                                 (removableIds (matchingRecords w q es)) st),
                invocations := invocations w @ Find c #
                                 map (RemoveById c) (removableIds (matchingRecords w q es)),
                queries := queries (queryReady q w),
                nextQuery := nextQuery (queryReady q w)\<rparr>)"
proof -
  note f = DB_find_ready[OF adapter_find_eq[OF assms(1,2)] assms(3), of q]
  show ?thesis
    by (simp add: DB_remove_unfold f removeEach_spec[OF assms(1)] matchingRecords_def)
qed

lemma remove_rejected:
  assumes "length cs = length (removableIds es)"
    and "(\<exists>e\<in>set es. hasInvalidId e) \<or> (\<exists>p\<in>set cs. \<forall>v. p \<noteq> Promised (Inr v))"
  shows "\<exists>x. promiseAll first (responses es cs) = Inl x
            \<and> ((x = idMustBeString \<and> (\<exists>e\<in>set es. hasInvalidId e))
                 \<or> Thrown x \<in> set cs \<or> Promised (Inl x) \<in> set cs)"
proof -
  note rc = responses_complete[OF assms(1)]
  have "rejectedAtOnce (responses es cs) \<noteq> [] \<or> rejectedLater (responses es cs) \<noteq> []"
  proof (cases "\<exists>e\<in>set es. hasInvalidId e")
    case True
    with rc have "AtOnce (Inl idMustBeString) \<in> set (responses es cs)" by blast
    then have "idMustBeString \<in> set (rejectedAtOnce (responses es cs))"
      by (simp only: rejectedAtOnce_set)
    then show ?thesis by auto
  next
    case False
    with assms(2) obtain p where p: "p \<in> set cs" "\<forall>v. p \<noteq> Promised (Inr v)" by blast
    show ?thesis
    proof (cases p)
      case (Thrown x)
      with p rc have "AtOnce (Inl x) \<in> set (responses es cs)" by blast
      then have "x \<in> set (rejectedAtOnce (responses es cs))" by (simp only: rejectedAtOnce_set)
      then show ?thesis by auto
    next
      case (Promised pr)
      with p obtain x where "pr = Inl x" by (cases pr) auto
      with p Promised rc have "Adopted (Inl x) \<in> set (responses es cs)" by blast
      then have "x \<in> set (rejectedLater (responses es cs))" by (simp only: rejectedLater_set)
      then show ?thesis by auto
    qed
  qed
  from promiseAll_rejected[OF this, of first] obtain x where
    x: "promiseAll first (responses es cs) = Inl x"
    and m: "x \<in> set (rejectedAtOnce (responses es cs)) \<or> x \<in> set (rejectedLater (responses es cs))"
    by blast
  from m have "(x = idMustBeString \<and> (\<exists>e\<in>set es. hasInvalidId e))
                 \<or> Thrown x \<in> set cs \<or> Promised (Inl x) \<in> set cs"
  proof
    assume "x \<in> set (rejectedAtOnce (responses es cs))"
    then have "AtOnce (Inl x) \<in> set (responses es cs)" by (simp only: rejectedAtOnce_set)
    from responses_atOnce[OF this] show ?thesis by blast
  next
    assume "x \<in> set (rejectedLater (responses es cs))"
    then have "Adopted (Inl x) \<in> set (responses es cs)" by (simp only: rejectedLater_set)
    from responses_adopted[OF this] show ?thesis by blast
  qed
  with x show ?thesis by blast
qed

lemma remove_invalid:
  assumes "length cs = length (removableIds es)"
    and "\<exists>e\<in>set es. hasInvalidId e" and "\<forall>x. Thrown x \<notin> set cs"
  shows "promiseAll first (responses es cs) = Inl idMustBeString"
proof -
  from responses_complete[OF assms(1)] assms(2)
  have "AtOnce (Inl idMustBeString) \<in> set (responses es cs)" by blast
  then have "idMustBeString \<in> set (rejectedAtOnce (responses es cs))"
    by (simp only: rejectedAtOnce_set)
  then obtain x xs where l: "rejectedAtOnce (responses es cs) = x # xs"
    by (cases "rejectedAtOnce (responses es cs)") auto
  then have "x \<in> set (rejectedAtOnce (responses es cs))" by simp
  then have "AtOnce (Inl x) \<in> set (responses es cs)" by (simp only: rejectedAtOnce_set)
  from responses_atOnce[OF this] assms(3) have "x = idMustBeString" by blast
  with promiseAll_atOnce[OF l, of first] show ?thesis by simp
qed

lemma remove_fulfilled:
  assumes "\<forall>e\<in>set es. \<not> hasInvalidId e"
  shows "promiseAll first (responses es (map (\<lambda>v. Promised (Inr v)) vs)) = Inr (collected es vs)"
  using responses_fulfilled[OF assms, of vs] by (simp add: promiseAll_def)

subsection \<open>The scenarios of the notes and of the drafts, evaluated\<close>

lemma memoryDb_adapter: "adapter memoryDb = Some (New Memory (JStr ''kid''))"
  by (simp add: memoryDb_def)

lemma memoryOnly_instantiate: "instantiate memoryOnly cl name = memoryAdapter"
  by (simp add: memoryOnly_def)

lemma scenario_notes_found:
  "ad_find (instantiate memoryOnly Memory (JStr ''kid'')) (JStr ''notes'') (store scenarioWorld)
     = (Promised (Inr someNotes), store scenarioWorld)"
  by (simp add: memoryOnly_def memoryAdapter_def scenarioWorld_def)

lemma scenario_done_notes:
  "matchingRecords scenarioWorld (QInstance 0) someNotes
     = [[(''_id'', JStr ''n1''), (''done'', JBool True)],
        [(''_id'', JStr ''n3''), (''done'', JBool True)]]"
  by (simp add: matchingRecords_def predicateOf_def scenarioWorld_def firstDone_def isDone_def
      someNotes_def getProp_def)

lemma scenario_done_ids:
  "removableIds [[(''_id'', JStr ''n1''), (''done'', JBool True)],
                 [(''_id'', JStr ''n3''), (''done'', JBool True)]] = [''n1'', ''n3'']"
  by (simp add: removableIds_def hasStringId_def idOf_def getProp_def idAttribute_def)

lemma scenario_done_removals:
  "removals memoryAdapter (JStr ''notes'') [''n1'', ''n3''] (store scenarioWorld)
     = ([Promised (Inr (JObj [(''count'', JNum 1)])), Promised (Inr (JObj [(''count'', JNum 1)]))],
        [(JStr ''notes'', [[(''_id'', JStr ''n2''), (''done'', JBool False)]]),
         (JStr ''notes'', [[(''_id'', JStr ''n2''), (''done'', JBool False)],
                           [(''_id'', JStr ''n3''), (''done'', JBool True)]]),
         (JStr ''notes'', someNotes)])"
  by (simp add: memoryAdapter_def scenarioWorld_def table_def hasId_def getProp_def
      idAttribute_def someNotes_def)

lemma scenario_numbered_saved:
  "DB_save memoryOnly memoryDb (JStr ''notes'') (BodyRecord numberedNote) scenarioWorld
     = (Inr (Value (JObj storedNumbered)), numberedWorld)"
  by (simp add: DB_save_def prepareEntity_def adapter_save_def memoryDb_def memoryOnly_def
      memoryAdapter_def numberedNote_def storedNumbered_def numberedWorld_def scenarioWorld_def
      table_def getProp_def idAttribute_def kmdAttribute_def someNotes_def)

lemma scenario_numbered_found:
  "ad_find (instantiate memoryOnly Memory (JStr ''kid'')) (JStr ''notes'') (store numberedWorld)
     = (Promised (Inr (storedNumbered # someNotes)), store numberedWorld)"
  by (simp add: memoryOnly_def memoryAdapter_def numberedWorld_def)

lemma scenario_numbered_invalid: "hasInvalidId storedNumbered"
  by (simp add: hasInvalidId_def storedNumbered_def getProp_def idAttribute_def)

lemma scenario_numbered_ids:
  "removableIds (storedNumbered # someNotes) = [''n1'', ''n2'', ''n3'']"
  by (simp add: removableIds_def hasStringId_def idOf_def getProp_def idAttribute_def
      storedNumbered_def someNotes_def)

lemma scenario_numbered_removals:
  "removals memoryAdapter (JStr ''notes'') [''n1'', ''n2'', ''n3''] (store numberedWorld)
     = ([Promised (Inr (JObj [(''count'', JNum 1)])), Promised (Inr (JObj [(''count'', JNum 1)])),
         Promised (Inr (JObj [(''count'', JNum 1)]))],
        snd (removals memoryAdapter (JStr ''notes'') [''n1'', ''n2'', ''n3''] (store numberedWorld)))
     \<and> table (snd (removals memoryAdapter (JStr ''notes'') [''n1'', ''n2'', ''n3'']
                   (store numberedWorld))) (JStr ''notes'') = [storedNumbered]"
  by (simp add: memoryAdapter_def numberedWorld_def table_def hasId_def getProp_def
      idAttribute_def someNotes_def storedNumbered_def)

lemma scenario_drafts_found:
  "ad_find (instantiate memoryOnly Memory (JStr ''kid'')) (JStr ''drafts'') (store draftsWorld)
     = (Promised (Inr [[(''_id'', JStr ''d1'')], [(''title'', JStr ''untitled'')]]),
        store draftsWorld)"
  by (simp add: memoryOnly_def memoryAdapter_def draftsWorld_def)

lemma scenario_drafts_ids:
  "removableIds [[(''_id'', JStr ''d1'')], [(''title'', JStr ''untitled'')]] = [''d1'']
   \<and> \<not> hasInvalidId [(''_id'', JStr ''d1'')] \<and> \<not> hasInvalidId [(''title'', JStr ''untitled'')]
   \<and> collected [[(''_id'', JStr ''d1'')], [(''title'', JStr ''untitled'')]]
        [JObj [(''count'', JNum 1)]] = [JObj [(''count'', JNum 1)], JUndefined]"
  by (simp add: removableIds_def hasStringId_def hasInvalidId_def idOf_def getProp_def
      idAttribute_def)

lemma scenario_drafts_removals:
  "removals memoryAdapter (JStr ''drafts'') [''d1''] (store draftsWorld)
     = ([Promised (Inr (JObj [(''count'', JNum 1)]))],
        [(JStr ''drafts'', [[(''title'', JStr ''untitled'')]]),
         (JStr ''drafts'', [[(''_id'', JStr ''d1'')], [(''title'', JStr ''untitled'')]])])"
  by (simp add: memoryAdapter_def draftsWorld_def table_def hasId_def getProp_def idAttribute_def)

subsection \<open>The caller's query after remove\<close>

lemma DB_remove_instance_queries:
  "queries (snd (DB_remove P this c (QInstance a) w)) = queries (resetWindow a w)"
proof -
  obtain r w3 where f: "DB_find P this c (QInstance a) (resetWindow a w) = (r, w3)"
    by (cases "DB_find P this c (QInstance a) (resetWindow a w)")
  have q3: "queries w3 = queries (resetWindow a w)"
    using DB_find_instance_queries[of P this c a "resetWindow a w"] by (simp add: f)
  show ?thesis
  proof (cases r)
    case (Inl e)
    then show ?thesis by (simp add: DB_remove_unfold queryReady_def f q3)
  next
    case (Inr es)
    have "queries (snd (removeEach P this c es w3)) = queries w3"
      by (rule removeEach_queries)
    then show ?thesis
      by (simp add: DB_remove_unfold queryReady_def f Inr q3)
  qed
qed

subsection \<open>save\<close>

lemma DB_save_record:
  assumes "prepareAll [e] w = (Inr es2, w1)" and "adapter_save P this c es2 w1 = (r, w2)"
    and "await r = Inr es3"
  shows "DB_save P this c (BodyRecord e) w
           = (if es3 \<noteq> [] then Inr (Value (JObj (es3 ! 0))) else Inr (Array []), w2)"
  using assms by (simp add: DB_save_def)

lemma DB_save_array:
  assumes "prepareAll es w = (Inr es2, w1)" and "adapter_save P this c es2 w1 = (r, w2)"
    and "await r = Inr es3"
  shows "DB_save P this c (BodyArray es) w = (Inr (Array (map JObj es3)), w2)"
  using assms by (simp add: DB_save_def)

lemma scenario_prepare_given:
  "prepareAll [givenNote] scenarioWorld = (Inr [savedNote], scenarioWorld)"
  by (simp add: prepareEntity_def givenNote_def savedNote_def getProp_def idAttribute_def
      kmdAttribute_def)

lemma scenario_save_nothing:
  "DB_save savesNothing memoryDb (JStr ''notes'') (BodyRecord givenNote) scenarioWorld
     = (Inr (Array []),
        scenarioWorld\<lparr>invocations := [Save (JStr ''notes'') [savedNote]]\<rparr>)"
proof -
  have s: "adapter_save savesNothing memoryDb (JStr ''notes'') [savedNote] scenarioWorld
        = (Promised (Inr []), scenarioWorld\<lparr>invocations := [Save (JStr ''notes'') [savedNote]]\<rparr>)"
    by (simp add: adapter_save_def savesNothing_def memoryDb_def scenarioWorld_def)
  show ?thesis
    using DB_save_record[OF scenario_prepare_given s] by simp
qed

lemma scenario_save_given:
  "adapter_save memoryOnly memoryDb (JStr ''notes'') [savedNote] scenarioWorld
     = (Promised (Inr [savedNote]),
        snd (adapter_save memoryOnly memoryDb (JStr ''notes'') [savedNote] scenarioWorld))"
proof -
  have "fst (adapter_save memoryOnly memoryDb (JStr ''notes'') [savedNote] scenarioWorld)
          = Promised (Inr [savedNote])"
    by (simp add: adapter_save_def memoryOnly_def memoryDb_def memoryAdapter_def split: prod.split)
  then show ?thesis by (simp add: prod_eq_iff)
qed

subsection \<open>findById\<close>

lemma DB_findById_rejected:
  "adapter_findById P this c i w = (Promised p, w1) \<Longrightarrow>
   DB_findById P this c (JStr i) w = (p, w1)"
  by (simp add: DB_findById_def)

lemma DB_findById_thrown:
  "adapter_findById P this c i w = (Thrown e, w1) \<Longrightarrow>
   DB_findById P this c (JStr i) w = (if isNotFoundError e then Inr JUndefined else Inl e, w1)"
  by (simp add: DB_findById_def)

lemma scenario_findById_missing:
  "adapter_findById memoryOnly memoryDb (JStr ''notes'') ''missing'' scenarioWorld
     = (Promised (Inl (NotFoundError ''missing'')),
        scenarioWorld\<lparr>invocations := [FindById (JStr ''notes'') ''missing'']\<rparr>)"
  by (simp add: adapter_findById_def memoryOnly_def memoryDb_def memoryAdapter_def
      scenarioWorld_def table_def someNotes_def hasId_def getProp_def idAttribute_def)

lemma scenario_find_absent:
  "await (fst (adapter_find memoryOnly memoryDb (JStr ''absent'') scenarioWorld))
     = Inl (NotFoundError ''collection'')"
  by (simp add: adapter_find_def memoryOnly_def memoryDb_def memoryAdapter_def scenarioWorld_def)

subsection \<open>The constructor and the middleware\<close>

lemma DBAdapter_distinct:
  "DBAdapter_IndexedDB \<noteq> DBAdapter_LocalStorage" "DBAdapter_IndexedDB \<noteq> DBAdapter_Memory"
  "DBAdapter_IndexedDB \<noteq> DBAdapter_WebSQL" "DBAdapter_LocalStorage \<noteq> DBAdapter_Memory"
  "DBAdapter_LocalStorage \<noteq> DBAdapter_WebSQL" "DBAdapter_Memory \<noteq> DBAdapter_WebSQL"
  by (simp_all add: DBAdapter_IndexedDB_def DBAdapter_LocalStorage_def DBAdapter_Memory_def
      DBAdapter_WebSQL_def)

lemma forEachAdapter_step:
  "forEachAdapter supported name (a # rest) =
     (case adapterClass a of
        Some c \<Rightarrow> (if supported c then (Some (New c name), [])
                   else forEachAdapter supported name rest)
      | None \<Rightarrow> (case forEachAdapter supported name rest of
                   (chosen, warnings) \<Rightarrow> (chosen, notRecognizedMsg a # warnings)))"
  by (simp add: adapterClass_def)

lemma forEachAdapter_none:
  "(fst (forEachAdapter supported name as) = None) = (\<not> listedSupported supported as)"
proof (induction as)
  case Nil
  show ?case by (simp add: listedSupported_def)
next
  case (Cons a as)
  have ls: "listedSupported supported (a # as)
          = ((case adapterClass a of None \<Rightarrow> False | Some c \<Rightarrow> supported c)
             \<or> listedSupported supported as)"
    by (simp add: listedSupported_def)
  show ?case
  proof (cases "adapterClass a")
    case None
    obtain chosen warnings where f: "forEachAdapter supported name as = (chosen, warnings)"
      by (cases "forEachAdapter supported name as")
    show ?thesis using Cons.IH None
      by (simp only: forEachAdapter_step ls) (simp add: f)
  next
    case (Some c)
    then show ?thesis using Cons.IH
      by (simp only: forEachAdapter_step ls) simp
  qed
qed

lemma forEachAdapter_some:
  "fst (forEachAdapter supported name as) = Some inst \<Longrightarrow>
   \<exists>a\<in>set as. \<exists>c. adapterClass a = Some c \<and> supported c \<and> inst = New c name"
proof (induction as)
  case Nil
  then show ?case by simp
next
  case (Cons a as)
  show ?case
  proof (cases "adapterClass a")
    case None
    with Cons.prems have "fst (forEachAdapter supported name as) = Some inst"
      by (simp only: forEachAdapter_step) (simp split: prod.splits)
    from Cons.IH[OF this] show ?thesis by auto
  next
    case (Some c)
    show ?thesis
    proof (cases "supported c")
      case True
      with Cons.prems Some have "inst = New c name"
        by (simp only: forEachAdapter_step) simp
      with Some True show ?thesis by auto
    next
      case False
      with Cons.prems Some have "fst (forEachAdapter supported name as) = Some inst"
        by (simp only: forEachAdapter_step) simp
      from Cons.IH[OF this] show ?thesis by auto
    qed
  qed
qed

lemma DB_constructor_fallback:
  assumes "\<not> listedSupported (isSupported P) as"
  shows "adapter (fst (DB_constructor P name (AdaptersList as) w))
           = (if isSupported P Memory then Some (New Memory name) else None)"
proof -
  obtain chosen warnings where f: "forEachAdapter (isSupported P) name as = (chosen, warnings)"
    by (cases "forEachAdapter (isSupported P) name as")
  have "chosen = None" using forEachAdapter_none[of "isSupported P" name as] assms by (simp add: f)
  then show ?thesis by (simp add: DB_constructor_def f)
qed

lemma DB_constructor_frame:
  "store (snd (DB_constructor P name adapters w)) = store w
   \<and> invocations (snd (DB_constructor P name adapters w)) = invocations w"
  by (simp add: DB_constructor_def Let_def split: prod.split option.split)

lemma dispatch_delete_without_collection:
  "method' r = DELETE \<Longrightarrow> \<not> truthy (collectionName r) \<Longrightarrow>
   dispatch P db r w = (Inl clearIsNotAFunction, w)"
  by (simp add: dispatch_def)

subsection \<open>Identifiers and metadata of saved records\<close>

lemma take1_drop:
  assumes "pos < length xs"
  shows "take (Suc 0) (drop pos xs) = [xs ! pos]"
proof -
  have "drop pos xs = xs ! pos # drop (Suc pos) xs"
    using Cons_nth_drop_Suc[OF assms] by simp
  then show ?thesis by simp
qed

lemma generateLoop_shape:
  "\<exists>ys. fst (generateLoop n objectId w) = objectId @ ys \<and> length ys = n \<and> set ys \<subseteq> set chars
     \<and> snd (generateLoop n objectId w) = w\<lparr>drawn := drawn w + n\<rparr>"
proof (induction n arbitrary: objectId w)
  case 0
  show ?case by simp
next
  case (Suc n)
  let ?pos = "random w (drawn w) mod length chars"
  have p: "?pos < length chars" by (simp add: chars_def)
  then have t: "take (Suc 0) (drop ?pos chars) = [chars ! ?pos]" by (rule take1_drop)
  from Suc.IH[of "objectId @ [chars ! ?pos]" "w\<lparr>drawn := Suc (drawn w)\<rparr>"]
  obtain ys where ys: "fst (generateLoop n (objectId @ [chars ! ?pos]) (w\<lparr>drawn := Suc (drawn w)\<rparr>))
        = (objectId @ [chars ! ?pos]) @ ys" "length ys = n" "set ys \<subseteq> set chars"
      "snd (generateLoop n (objectId @ [chars ! ?pos]) (w\<lparr>drawn := Suc (drawn w)\<rparr>))
        = w\<lparr>drawn := Suc (drawn w), drawn := drawn (w\<lparr>drawn := Suc (drawn w)\<rparr>) + n\<rparr>"
    by auto
  have "chars ! ?pos \<in> set chars" using p by simp
  with ys show ?case
    by (intro exI[of _ "chars ! ?pos # ys"]) (simp add: Let_def t)
qed

lemma generateObjectId_shape:
  "length (fst (DB_generateObjectId n w)) = n
   \<and> set (fst (DB_generateObjectId n w)) \<subseteq> set ''abcdef0123456789''
   \<and> drawn (snd (DB_generateObjectId n w)) = drawn w + n"
proof -
  from generateLoop_shape[of n "[]" w] obtain ys where
    "fst (generateLoop n [] w) = ys" "length ys = n" "set ys \<subseteq> set chars"
    "snd (generateLoop n [] w) = w\<lparr>drawn := drawn w + n\<rparr>" by auto
  then show ?thesis
    by (simp add: DB_generateObjectId_def objectIdPrefix_def split: prod.split)
      (simp add: chars_def)
qed

lemma getProp_setProp_same: "getProp (setProp e k v) k = v"
  by (induction e k v rule: setProp.induct) (simp_all add: getProp_def)

lemma getProp_setProp_other: "k' \<noteq> k \<Longrightarrow> getProp (setProp e k v) k' = getProp e k'"
  by (induction e k v rule: setProp.induct) (simp_all add: getProp_def)

lemma attributes_differ: "idAttribute \<noteq> kmdAttribute"
  by (simp add: idAttribute_def kmdAttribute_def)

lemma prepareEntity_populates:
  assumes "prepareEntity e w = (Inr e', w')"
  shows "truthy (getProp e' idAttribute) \<and> truthy (getProp e' kmdAttribute)
       \<and> (truthy (getProp e idAttribute) \<longrightarrow> getProp e' idAttribute = getProp e idAttribute)"
proof (cases "truthy (getProp e idAttribute)")
  case True
  with assms have e': "e' = setProp (setProp e idAttribute (getProp e idAttribute)) kmdAttribute
      (if truthy (getProp e kmdAttribute) then getProp e kmdAttribute else JObj [])"
    by (simp add: prepareEntity_def Let_def)
  show ?thesis using True
    by (simp add: e' getProp_setProp_same getProp_setProp_other attributes_differ)
next
  case False
  obtain newId w1 where g: "DB_generateObjectId 24 w = (newId, w1)"
    by (cases "DB_generateObjectId 24 w")
  have "length newId = 24" using generateObjectId_shape[of 24 w] by (simp add: g)
  then have ne: "newId \<noteq> []" by auto
  let ?kmd = "if truthy (getProp e kmdAttribute) then getProp e kmdAttribute else JObj []"
  show ?thesis
  proof (cases ?kmd)
    case (JObj props)
    with assms False g have e': "e' = setProp (setProp e idAttribute (JStr newId)) kmdAttribute
        (JObj (setProp props ''local'' (JBool True)))"
      by (simp add: prepareEntity_def Let_def)
    show ?thesis using False ne
      by (simp add: e' getProp_setProp_same getProp_setProp_other attributes_differ)
  qed (use assms False g in \<open>simp_all add: prepareEntity_def Let_def\<close>)
qed

lemma prepareAll_populates:
  "prepareAll es w = (Inr es', w') \<Longrightarrow>
   length es' = length es
   \<and> (\<forall>e'\<in>set es'. truthy (getProp e' idAttribute) \<and> truthy (getProp e' kmdAttribute))"
proof (induction es arbitrary: w es' w')
  case Nil
  then show ?case by auto
next
  case (Cons e es)
  obtain r1 w1 where p1: "prepareEntity e w = (r1, w1)" by (cases "prepareEntity e w")
  show ?case
  proof (cases r1)
    case (Inl err)
    with Cons.prems p1 show ?thesis by simp
  next
    case (Inr e1)
    obtain r2 w2 where p2: "prepareAll es w1 = (r2, w2)" by (cases "prepareAll es w1")
    show ?thesis
    proof (cases r2)
      case (Inl err)
      with Cons.prems p1 p2 \<open>r1 = Inr e1\<close> show ?thesis by simp
    next
      case es1: (Inr es1)
      with Cons.prems p1 p2 Inr have es': "es' = e1 # es1" by simp
      have "truthy (getProp e1 idAttribute) \<and> truthy (getProp e1 kmdAttribute)"
        using prepareEntity_populates[where e = e and w = w and e' = e1 and w' = w1] p1 Inr
        by simp
      moreover have "length es1 = length es
          \<and> (\<forall>e'\<in>set es1. truthy (getProp e' idAttribute) \<and> truthy (getProp e' kmdAttribute))"
        using Cons.IH[where w = w1 and es' = es1 and w' = w2] p2 es1 by simp
      ultimately show ?thesis by (simp add: es')
    qed
  qed
qed

section \<open>Claims about the cache engine\<close>

text \<open>
  Claim C2, as stated, says that no operation of the cache engine changes the query
  object of the caller.  \<open>remove\<close> does: called with a \<open>Query\<close> instance
  whose limit is 1, it leaves that instance with the limit \<open>null\<close>.
\<close>

theorem C2_remove_resets_the_window_of_the_callers_query:
  "q_limit (queries scenarioWorld 0) = Some 1
   \<and> q_limit (queries (snd (DB_remove memoryOnly memoryDb (JStr ''notes'') (QInstance 0)
        scenarioWorld)) 0) = None"
  by (simp add: DB_remove_instance_queries resetWindow_def) (simp add: scenarioWorld_def firstDone_def)

text \<open>
  Claim C2, amended: \<open>find\<close> and \<open>count\<close> change no \<open>Query\<close>
  instance.  \<open>remove\<close> keeps the predicate of the caller's instance and assigns
  its sort and limit to \<open>null\<close> and its skip to 0; no other instance changes.
\<close>

theorem C2_find_and_count_keep_the_query_remove_keeps_its_predicate:
  "queries (snd (DB_find P this c (QInstance a) w)) = queries w
   \<and> queries (snd (DB_count P this c (QInstance a) w)) = queries w
   \<and> queries (snd (DB_remove P this c (QInstance a) w))
       = (queries w)(a := (queries w a)\<lparr>q_sort := None, q_limit := None, q_skip := 0\<rparr>)
   \<and> q_filter (queries (snd (DB_remove P this c (QInstance a) w)) a) = q_filter (queries w a)"
  by (simp add: DB_find_instance_queries DB_count_instance_queries DB_remove_instance_queries
      resetWindow_def)

text \<open>
  Claim C5, as stated, says that a single record always comes back as a single record.
  The code returns the first saved record only when the adapter returned at least one:
  with an adapter whose \<open>save\<close> is fulfilled with no records, the save of one
  record returns the empty sequence.
\<close>

theorem C5_single_record_saved_as_an_empty_sequence:
  "fst (adapter_save savesNothing memoryDb (JStr ''notes'') [savedNote] scenarioWorld)
     = Promised (Inr [])
   \<and> fst (DB_save savesNothing memoryDb (JStr ''notes'') (BodyRecord givenNote) scenarioWorld)
     = Inr (Array [])"
  by (simp add: scenario_save_nothing)
    (simp add: adapter_save_def savesNothing_def memoryDb_def scenarioWorld_def)

text \<open>
  Claim C5, amended: when the records are prepared without error and the adapter's
  \<open>save\<close> is fulfilled with \<open>es3\<close>, the save of a single record returns
  the first record of \<open>es3\<close> if \<open>es3\<close> is not empty and the empty sequence
  otherwise; the save of an array returns the whole sequence \<open>es3\<close>.
\<close>

theorem C5_save_symmetric_when_the_adapter_returns_records:
  assumes "prepareAll es w = (Inr es2, w1)" and "adapter_save P this c es2 w1 = (r, w2)"
    and "await r = Inr es3"
  shows "(es = [e] \<and> es3 \<noteq> [] \<longrightarrow>
            DB_save P this c (BodyRecord e) w = (Inr (Value (JObj (es3 ! 0))), w2))
       \<and> (es = [e] \<and> es3 = [] \<longrightarrow>
            DB_save P this c (BodyRecord e) w = (Inr (Array []), w2))
       \<and> DB_save P this c (BodyArray es) w = (Inr (Array (map JObj es3)), w2)"
  using DB_save_record[of e w es2 w1 P this c r w2 es3] DB_save_array[OF assms] assms
  by auto

theorem C5_save_symmetric_when_the_adapter_returns_records_witness:
  "prepareAll [givenNote] scenarioWorld = (Inr [savedNote], scenarioWorld)
   \<and> fst (adapter_save memoryOnly memoryDb (JStr ''notes'') [savedNote] scenarioWorld)
       = Promised (Inr [savedNote])
   \<and> fst (DB_save memoryOnly memoryDb (JStr ''notes'') (BodyRecord givenNote) scenarioWorld)
       = Inr (Value (JObj savedNote))
   \<and> fst (DB_save memoryOnly memoryDb (JStr ''notes'') (BodyArray [givenNote]) scenarioWorld)
       = Inr (Array [JObj savedNote])"
proof -
  have a: "await (Promised (Inr [savedNote])) = Inr [savedNote]" by simp
  note t = C5_save_symmetric_when_the_adapter_returns_records[OF scenario_prepare_given
      scenario_save_given a, of givenNote]
  have f: "fst (adapter_save memoryOnly memoryDb (JStr ''notes'') [savedNote] scenarioWorld)
       = Promised (Inr [savedNote])"
    using scenario_save_given by (simp add: prod_eq_iff)
  from t have "DB_save memoryOnly memoryDb (JStr ''notes'') (BodyRecord givenNote) scenarioWorld
      = (Inr (Value (JObj ([savedNote] ! 0))),
         snd (adapter_save memoryOnly memoryDb (JStr ''notes'') [savedNote] scenarioWorld))"
    by simp
  moreover from t
  have "DB_save memoryOnly memoryDb (JStr ''notes'') (BodyArray [givenNote]) scenarioWorld
      = (Inr (Array (map JObj [savedNote])),
         snd (adapter_save memoryOnly memoryDb (JStr ''notes'') [savedNote] scenarioWorld))"
    by simp
  ultimately show ?thesis using scenario_prepare_given f by simp
qed

text \<open>
  Claim C6, as stated, says that \<open>remove\<close> removes exactly the records that
  match the predicate of the query.  It removes those of them that carry a non-empty
  string identifier.  \<open>save\<close> stores a note whose identifier is the number 5
  as it is; \<open>remove\<close> on its collection, without a query, is then rejected with
  the validation error of \<open>removeById\<close> and the note is still stored, while the
  other notes of the collection are gone.  A record without identifier is skipped:
  \<open>remove\<close> on the collection \<open>drafts\<close> succeeds, collects
  \<open>undefined\<close> for that record, and the record is still stored.
\<close>

theorem C6_matching_record_without_a_string_identifier_stays:
  "DB_save memoryOnly memoryDb (JStr ''notes'') (BodyRecord numberedNote) scenarioWorld
     = (Inr (Value (JObj storedNumbered)), numberedWorld)
   \<and> table (store numberedWorld) (JStr ''notes'') = storedNumbered # someNotes
   \<and> fst (DB_remove memoryOnly memoryDb (JStr ''notes'') QFalsy numberedWorld)
       = Inl (KinveyError ''id must be a string'')
   \<and> table (store (snd (DB_remove memoryOnly memoryDb (JStr ''notes'') QFalsy numberedWorld)))
       (JStr ''notes'') = [storedNumbered]
   \<and> fst (DB_remove memoryOnly memoryDb (JStr ''drafts'') QFalsy draftsWorld)
       = Inr [JObj [(''count'', JNum 1)], JUndefined]
   \<and> table (store (snd (DB_remove memoryOnly memoryDb (JStr ''drafts'') QFalsy draftsWorld)))
       (JStr ''drafts'') = [[(''title'', JStr ''untitled'')]]"
proof -
  have a: "await (Promised (Inr es)) = Inr es" for es :: "entity list" by simp
  note n = remove_spec[OF memoryDb_adapter scenario_numbered_found a, of QFalsy]
  note d = remove_spec[OF memoryDb_adapter scenario_drafts_found a, of QFalsy]
  have m: "matchingRecords w QFalsy es = es" for w :: "tables world" and es
    by (simp add: matchingRecords_def predicateOf_def)
  have t: "table (store numberedWorld) (JStr ''notes'') = storedNumbered # someNotes"
    by (simp add: numberedWorld_def table_def)
  have n1: "fst (DB_remove memoryOnly memoryDb (JStr ''notes'') QFalsy numberedWorld)
       = Inl (KinveyError ''id must be a string'')"
    using scenario_numbered_removals
    by (simp add: n m scenario_numbered_ids memoryOnly_instantiate prod_eq_iff
        del: removals.simps)
      (simp add: promiseAll_def hasStringId_def hasInvalidId_def getProp_def idAttribute_def
        storedNumbered_def someNotes_def idMustBeString_def)
  have n2: "table (store (snd (DB_remove memoryOnly memoryDb (JStr ''notes'') QFalsy
        numberedWorld))) (JStr ''notes'') = [storedNumbered]"
    using scenario_numbered_removals
    by (simp add: n m scenario_numbered_ids memoryOnly_instantiate del: removals.simps)
  have d1: "fst (DB_remove memoryOnly memoryDb (JStr ''drafts'') QFalsy draftsWorld)
       = Inr [JObj [(''count'', JNum 1)], JUndefined]"
    by (simp add: d m scenario_drafts_ids memoryOnly_instantiate scenario_drafts_removals
        del: removals.simps)
      (simp add: promiseAll_def hasStringId_def hasInvalidId_def getProp_def idAttribute_def)
  have d2: "table (store (snd (DB_remove memoryOnly memoryDb (JStr ''drafts'') QFalsy
        draftsWorld))) (JStr ''drafts'') = [[(''title'', JStr ''untitled'')]]"
    by (simp add: d m scenario_drafts_ids memoryOnly_instantiate scenario_drafts_removals
        del: removals.simps)
      (simp add: table_def)
  show ?thesis
    by (intro conjI) (rule scenario_numbered_saved, rule t, rule n1, rule n2, rule d1, rule d2)
qed

text \<open>
  Claim C6, amended: \<open>remove\<close> ignores the window of the query.  Whatever the
  query's sort, limit and skip are, and whether the query is an instance, a plain
  specification or absent, when the adapter's \<open>find\<close> is fulfilled with
  \<open>es\<close> the removals are those of the records of \<open>es\<close> that match the
  query's predicate, in the order of \<open>es\<close>.  The adapter's
  \<open>removeById\<close> is called once for each matching record that carries a non-empty
  string identifier, with that identifier, and the store is the one these calls leave;
  a matching record with a falsy identifier is skipped.  If no matching record has a
  truthy identifier that is not a string and the adapter fulfils every removal,
  \<open>remove\<close> returns the responses in order, one for each matching record,
  \<open>undefined\<close> for a skipped one.  Otherwise \<open>remove\<close> is rejected,
  with the reason of one of the rejected removals; with the validation error when a
  matching record has a truthy identifier that is not a string and the adapter's method
  does not throw.
\<close>

theorem C6_remove_targets_every_matching_record:
  assumes "adapter this = Some (New cl name)"
    and "ad_find (instantiate P cl name) c (store w) = (r, st)"
    and "await r = Inr es"
  shows "store (snd (DB_remove P this c q w))
           = snd (removals (instantiate P cl name) c (removableIds (matchingRecords w q es)) st)
       \<and> invocations (snd (DB_remove P this c q w))
           = invocations w @ Find c # map (RemoveById c) (removableIds (matchingRecords w q es))
       \<and> (\<forall>vs. (\<forall>e\<in>set (matchingRecords w q es). \<not> hasInvalidId e)
                \<and> fst (removals (instantiate P cl name) c
                         (removableIds (matchingRecords w q es)) st)
                    = map (\<lambda>v. Promised (Inr v)) vs \<longrightarrow>
              fst (DB_remove P this c q w) = Inr (collected (matchingRecords w q es) vs))
       \<and> ((\<exists>e\<in>set (matchingRecords w q es). hasInvalidId e)
            \<or> (\<exists>p\<in>set (fst (removals (instantiate P cl name) c
                               (removableIds (matchingRecords w q es)) st)).
                  \<forall>v. p \<noteq> Promised (Inr v)) \<longrightarrow>
          (\<exists>x. fst (DB_remove P this c q w) = Inl x
             \<and> ((x = idMustBeString \<and> (\<exists>e\<in>set (matchingRecords w q es). hasInvalidId e))
                \<or> Thrown x \<in> set (fst (removals (instantiate P cl name) c
                                         (removableIds (matchingRecords w q es)) st))
                \<or> Promised (Inl x) \<in> set (fst (removals (instantiate P cl name) c
                                         (removableIds (matchingRecords w q es)) st)))))
       \<and> ((\<exists>e\<in>set (matchingRecords w q es). hasInvalidId e)
            \<and> (\<forall>x. Thrown x \<notin> set (fst (removals (instantiate P cl name) c
                                         (removableIds (matchingRecords w q es)) st))) \<longrightarrow>
          fst (DB_remove P this c q w) = Inl idMustBeString)"
proof -
  let ?T = "matchingRecords w q es"
  let ?cs = "fst (removals (instantiate P cl name) c (removableIds ?T) st)"
  note rs = remove_spec[OF assms, of q]
  have l: "length ?cs = length (removableIds ?T)" by (rule removals_length)
  have f: "fst (DB_remove P this c q w) = promiseAll (rejectedFirst P) (responses ?T ?cs)"
    by (simp add: rs)
  show ?thesis
  proof (intro conjI allI impI)
    show "store (snd (DB_remove P this c q w))
           = snd (removals (instantiate P cl name) c (removableIds ?T) st)"
      by (simp add: rs)
    show "invocations (snd (DB_remove P this c q w))
           = invocations w @ Find c # map (RemoveById c) (removableIds ?T)"
      by (simp add: rs)
  next
    fix vs
    assume h: "(\<forall>e\<in>set ?T. \<not> hasInvalidId e) \<and> ?cs = map (\<lambda>v. Promised (Inr v)) vs"
    show "fst (DB_remove P this c q w) = Inr (collected ?T vs)"
      using remove_fulfilled[OF conjunct1[OF h], of "rejectedFirst P" vs] conjunct2[OF h]
      by (simp only: f)
  next
    assume "(\<exists>e\<in>set ?T. hasInvalidId e) \<or> (\<exists>p\<in>set ?cs. \<forall>v. p \<noteq> Promised (Inr v))"
    from remove_rejected[OF l this, of "rejectedFirst P"]
    show "\<exists>x. fst (DB_remove P this c q w) = Inl x
             \<and> ((x = idMustBeString \<and> (\<exists>e\<in>set ?T. hasInvalidId e))
                \<or> Thrown x \<in> set ?cs \<or> Promised (Inl x) \<in> set ?cs)"
      by (simp only: f)
  next
    assume h: "(\<exists>e\<in>set ?T. hasInvalidId e) \<and> (\<forall>x. Thrown x \<notin> set ?cs)"
    show "fst (DB_remove P this c q w) = Inl idMustBeString"
      using remove_invalid[OF l conjunct1[OF h] conjunct2[OF h], of "rejectedFirst P"]
      by (simp only: f)
  qed
qed

theorem C6_remove_targets_every_matching_record_witness:
  "adapter memoryDb = Some (New Memory (JStr ''kid''))
   \<and> ad_find (instantiate memoryOnly Memory (JStr ''kid'')) (JStr ''notes'') (store scenarioWorld)
       = (Promised (Inr someNotes), store scenarioWorld)
   \<and> q_limit (queries scenarioWorld 0) = Some 1
   \<and> matchingRecords scenarioWorld (QInstance 0) someNotes
       = [[(''_id'', JStr ''n1''), (''done'', JBool True)],
          [(''_id'', JStr ''n3''), (''done'', JBool True)]]
   \<and> fst (DB_remove memoryOnly memoryDb (JStr ''notes'') (QInstance 0) scenarioWorld)
       = Inr [JObj [(''count'', JNum 1)], JObj [(''count'', JNum 1)]]
   \<and> table (store (snd (DB_remove memoryOnly memoryDb (JStr ''notes'') (QInstance 0)
        scenarioWorld))) (JStr ''notes'') = [[(''_id'', JStr ''n2''), (''done'', JBool False)]]
   \<and> invocations (snd (DB_remove memoryOnly memoryDb (JStr ''notes'') (QInstance 0)
        scenarioWorld))
       = [Find (JStr ''notes''), RemoveById (JStr ''notes'') ''n1'',
          RemoveById (JStr ''notes'') ''n3'']
   \<and> hasInvalidId storedNumbered
   \<and> fst (DB_remove memoryOnly memoryDb (JStr ''notes'') QFalsy numberedWorld)
       = Inl idMustBeString"
proof -
  have a: "await (Promised (Inr es)) = Inr es" for es :: "entity list" by simp
  note t = C6_remove_targets_every_matching_record[OF memoryDb_adapter scenario_notes_found a, of "QInstance 0"]
  note u = C6_remove_targets_every_matching_record[OF memoryDb_adapter scenario_numbered_found a, of QFalsy]
  have l: "q_limit (queries scenarioWorld 0) = Some 1"
    by (simp add: scenarioWorld_def firstDone_def)
  have ni: "\<forall>e\<in>set (matchingRecords scenarioWorld (QInstance 0) someNotes). \<not> hasInvalidId e"
    by (simp add: scenario_done_notes hasInvalidId_def getProp_def idAttribute_def)
  have cs: "fst (removals (instantiate memoryOnly Memory (JStr ''kid'')) (JStr ''notes'')
                  (removableIds (matchingRecords scenarioWorld (QInstance 0) someNotes))
                  (store scenarioWorld))
              = map (\<lambda>v. Promised (Inr v)) [JObj [(''count'', JNum 1)], JObj [(''count'', JNum 1)]]"
    by (simp add: scenario_done_notes scenario_done_ids memoryOnly_instantiate
        scenario_done_removals del: removals.simps)
  have c: "collected (matchingRecords scenarioWorld (QInstance 0) someNotes)
             [JObj [(''count'', JNum 1)], JObj [(''count'', JNum 1)]]
           = [JObj [(''count'', JNum 1)], JObj [(''count'', JNum 1)]]"
    by (simp add: scenario_done_notes hasStringId_def getProp_def idAttribute_def)
  have s1: "fst (DB_remove memoryOnly memoryDb (JStr ''notes'') (QInstance 0) scenarioWorld)
       = Inr [JObj [(''count'', JNum 1)], JObj [(''count'', JNum 1)]]"
    using t[THEN conjunct2, THEN conjunct2, THEN conjunct1, rule_format, OF conjI[OF ni cs]]
    by (simp only: c)
  have s2: "table (store (snd (DB_remove memoryOnly memoryDb (JStr ''notes'') (QInstance 0)
        scenarioWorld))) (JStr ''notes'') = [[(''_id'', JStr ''n2''), (''done'', JBool False)]]"
    using conjunct1[OF t]
    by (simp add: scenario_done_notes scenario_done_ids memoryOnly_instantiate
        scenario_done_removals table_def del: removals.simps)
  have s3: "invocations (snd (DB_remove memoryOnly memoryDb (JStr ''notes'') (QInstance 0)
        scenarioWorld))
       = [Find (JStr ''notes''), RemoveById (JStr ''notes'') ''n1'',
          RemoveById (JStr ''notes'') ''n3'']"
    using conjunct1[OF conjunct2[OF t]]
    by (simp add: scenario_done_notes scenario_done_ids) (simp add: scenarioWorld_def)
  have m: "matchingRecords numberedWorld QFalsy (storedNumbered # someNotes)
             = storedNumbered # someNotes"
    by (simp add: matchingRecords_def predicateOf_def)
  have iv: "\<exists>e\<in>set (matchingRecords numberedWorld QFalsy (storedNumbered # someNotes)).
              hasInvalidId e"
    using scenario_numbered_invalid by (simp add: m)
  have nt: "\<forall>x. Thrown x \<notin> set (fst (removals (instantiate memoryOnly Memory (JStr ''kid''))
                (JStr ''notes'')
                (removableIds (matchingRecords numberedWorld QFalsy (storedNumbered # someNotes)))
                (store numberedWorld)))"
    using scenario_numbered_removals
    by (simp add: m scenario_numbered_ids memoryOnly_instantiate prod_eq_iff del: removals.simps)
  have s4: "fst (DB_remove memoryOnly memoryDb (JStr ''notes'') QFalsy numberedWorld)
       = Inl idMustBeString"
    by (rule u[THEN conjunct2, THEN conjunct2, THEN conjunct2, THEN conjunct2, rule_format,
          OF conjI[OF iv nt]])
  show ?thesis
    by (intro conjI) (rule memoryDb_adapter, rule scenario_notes_found, rule l,
      rule scenario_done_notes, rule s1, rule s2, rule s3, rule scenario_numbered_invalid, rule s4)
qed

text \<open>
  Claim C7 holds for \<open>find\<close> and fails for \<open>findById\<close>.  The \<open>catch\<close>
  of \<open>findById\<close> turns a \<open>NotFoundError\<close> into \<open>undefined\<close>, but the
  adapter's promise is returned without \<open>await\<close>, so a promise rejected with
  \<open>NotFoundError\<close> never reaches that \<open>catch\<close>.  With the in-memory adapter,
  looking up an identifier that is not stored is rejected with \<open>NotFoundError\<close>,
  and so is \<open>findById\<close>; \<open>find\<close> on a collection that is not stored
  returns the empty sequence.
\<close>

theorem C7_findById_propagates_a_rejected_not_found:
  "fst (adapter_findById memoryOnly memoryDb (JStr ''notes'') ''missing'' scenarioWorld)
     = Promised (Inl (NotFoundError ''missing''))
   \<and> fst (DB_findById memoryOnly memoryDb (JStr ''notes'') (JStr ''missing'') scenarioWorld)
     = Inl (NotFoundError ''missing'')
   \<and> fst (DB_find memoryOnly memoryDb (JStr ''absent'') QFalsy scenarioWorld) = Inr []"
  by (simp add: DB_findById_rejected[OF scenario_findById_missing] scenario_findById_missing
      DB_find_not_found[OF scenario_find_absent])

text \<open>
  Claim C8: with an identifier that is not a string, \<open>findById\<close> fails with the
  validation error and the world is unchanged (the adapter is not invoked, nothing is
  stored).  With a falsy identifier \<open>removeById\<close> returns \<open>undefined\<close>, and
  with a truthy identifier that is not a string it fails with the validation error; in
  both cases the world is unchanged.
\<close>

theorem C8_identifier_validation:
  "(\<not> isString i \<longrightarrow> DB_findById P this c i w = (Inl idMustBeString, w))
   \<and> (\<not> truthy i \<longrightarrow> DB_removeById P this c i w = (Inr JUndefined, w))
   \<and> (truthy i \<and> \<not> isString i \<longrightarrow> DB_removeById P this c i w = (Inl idMustBeString, w))"
proof (intro conjI impI)
  assume "\<not> isString i"
  then show "DB_findById P this c i w = (Inl idMustBeString, w)"
    by (cases i) (simp_all add: DB_findById_def idMustBeString_def)
next
  assume "\<not> truthy i"
  then show "DB_removeById P this c i w = (Inr JUndefined, w)"
    by (simp add: DB_removeById_def)
next
  assume "truthy i \<and> \<not> isString i"
  then show "DB_removeById P this c i w = (Inl idMustBeString, w)"
    by (cases i) (simp_all add: DB_removeById_def)
qed

theorem C8_identifier_validation_witness:
  "\<not> isString (JNum 123) \<and> truthy (JNum 123) \<and> \<not> truthy JUndefined
   \<and> DB_findById memoryOnly memoryDb (JStr ''notes'') (JNum 123) scenarioWorld
       = (Inl (KinveyError ''id must be a string''), scenarioWorld)
   \<and> DB_removeById memoryOnly memoryDb (JStr ''notes'') JUndefined scenarioWorld
       = (Inr JUndefined, scenarioWorld)
   \<and> DB_removeById memoryOnly memoryDb (JStr ''notes'') (JNum 123) scenarioWorld
       = (Inl (KinveyError ''id must be a string''), scenarioWorld)"
  using C8_identifier_validation[of "JNum 123" memoryOnly memoryDb "JStr ''notes''" scenarioWorld]
    C8_identifier_validation[of JUndefined memoryOnly memoryDb "JStr ''notes''" scenarioWorld]
  by (simp add: idMustBeString_def)

text \<open>
  Claim C10: when the request that \<open>super.handle\<close> returns is a DELETE whose
  collection name is absent (falsy), \<open>handle\<close> calls \<open>db.clear()\<close>, which
  the class \<open>DB\<close> does not define: the request fails with a \<open>TypeError\<close>,
  no response is attached, the adapter is not invoked and the store is unchanged.
\<close>

theorem C10_delete_without_collection_fails:
  assumes "superHandle request0 = Inr r" and "method' r = DELETE"
    and "\<not> truthy (collectionName r)"
  shows "fst (CacheMiddleware_handle P superHandle adapters request0 w) = Inl clearIsNotAFunction
       \<and> store (snd (CacheMiddleware_handle P superHandle adapters request0 w)) = store w
       \<and> invocations (snd (CacheMiddleware_handle P superHandle adapters request0 w))
           = invocations w"
proof -
  obtain db w1 where c: "DB_constructor P (appKey r) adapters w = (db, w1)"
    by (cases "DB_constructor P (appKey r) adapters w")
  have f: "store w1 = store w \<and> invocations w1 = invocations w"
    using DB_constructor_frame[of P "appKey r" adapters w] by (simp add: c)
  have "CacheMiddleware_handle P superHandle adapters request0 w = (Inl clearIsNotAFunction, w1)"
    by (simp add: CacheMiddleware_handle_def assms(1) c
        dispatch_delete_without_collection[OF assms(2,3)])
  with f show ?thesis by simp
qed

theorem C10_delete_without_collection_fails_witness:
  "method' deleteAll = DELETE \<and> \<not> truthy (collectionName deleteAll)
   \<and> fst (CacheMiddleware_handle memoryOnly Inr AdaptersDefault deleteAll scenarioWorld)
       = Inl (TypeError ''db.clear is not a function'')
   \<and> store (snd (CacheMiddleware_handle memoryOnly Inr AdaptersDefault deleteAll scenarioWorld))
       = store scenarioWorld
   \<and> invocations (snd (CacheMiddleware_handle memoryOnly Inr AdaptersDefault deleteAll
        scenarioWorld)) = []"
proof -
  have h1: "Inr deleteAll = (Inr deleteAll :: error + request)" by simp
  have h2: "method' deleteAll = DELETE" by (simp add: deleteAll_def)
  have h3: "\<not> truthy (collectionName deleteAll)" by (simp add: deleteAll_def)
  from C10_delete_without_collection_fails[of Inr deleteAll deleteAll, OF h1 h2 h3,
      of memoryOnly AdaptersDefault scenarioWorld] h2 h3
  show ?thesis by (simp add: clearIsNotAFunction_def) (simp add: scenarioWorld_def)
qed

section \<open>A claim about both selections of a storage technology\<close>

text \<open>
  Claim C3, as stated, says that when the priority list is exhausted the selection fails
  and no engine is substituted.  The sources select a storage technology from a
  priority list in two places: in the repository provider and in the constructor of
  \<open>DB\<close>.  The constructor substitutes: with the list \<open>IndexedDB\<close> on a
  platform that supports only \<open>Memory\<close>, no listed adapter is supported, and the
  engine is constructed on the \<open>Memory\<close> adapter, which is not in the list; an
  error is logged and none is raised.
\<close>

theorem C3_database_constructor_defaults_to_memory:
  "\<not> listedSupported (isSupported memoryOnly) [DBAdapter_IndexedDB]
   \<and> DBAdapter_Memory \<notin> set [DBAdapter_IndexedDB]
   \<and> adapter (fst (DB_constructor memoryOnly (JStr ''kid'') (AdaptersList [DBAdapter_IndexedDB])
        scenarioWorld)) = Some (New Memory (JStr ''kid''))
   \<and> logged (snd (DB_constructor memoryOnly (JStr ''kid'') (AdaptersList [DBAdapter_IndexedDB])
        scenarioWorld)) = [defaultingMsg]"
  by (simp add: DB_constructor_def DBAdapter_distinct DBAdapter_distinct[symmetric]
      listedSupported_def adapterClass_def memoryOnly_def scenarioWorld_def)

text \<open>
  Claim C3, amended: in the repository provider, if no identifier of the priority list
  passes, resolution fails with the error saying that none of the selected storage
  providers is supported; this is the only error resolution fails with, and it fails
  only then; a repository that resolution is fulfilled with was built by the builder
  of the first identifier of the list that passes, so nothing is substituted.  The
  constructor of \<open>DB\<close> is different: if no listed adapter is supported, the
  engine gets the \<open>Memory\<close> adapter when that is supported, and no adapter
  otherwise.
\<close>

theorem C3_exhausted_list:
  "((\<forall>x\<in>set (ensureArray (storage s)). \<not> passes create s x) \<longrightarrow>
      fst (chooseOfflineRepo create s) = Inl (KinveyError noneSupportedMsg))
   \<and> (\<forall>e. fst (chooseOfflineRepo create s) = Inl e \<longrightarrow>
        e = KinveyError noneSupportedMsg
        \<and> (\<forall>x\<in>set (ensureArray (storage s)). \<not> passes create s x))
   \<and> (\<forall>repo. fst (chooseOfflineRepo create s) = Inr repo \<longrightarrow>
        (\<exists>ys x zs b. ensureArray (storage s) = ys @ x # zs
           \<and> (\<forall>y\<in>set ys. \<not> passes create s y)
           \<and> availableStorages s x = Some b \<and> b queue = Inr repo
           \<and> testRepoSupport create repo = Inr ()))
   \<and> (\<not> listedSupported (isSupported P) as \<longrightarrow>
        adapter (fst (DB_constructor P name (AdaptersList as) w))
          = (if isSupported P Memory then Some (New Memory name) else None))"
  using chooseOfflineRepo_all_fail[of s create] chooseOfflineRepo_rejected[of create s]
    chooseOfflineRepo_fulfilled[of create s] DB_constructor_fallback[of P as name w]
  by blast

theorem C3_exhausted_list_witness:
  "\<not> passes scenarioCreate (scenarioProvider (One ''Unsupported'')) ''Unsupported''
   \<and> fst (chooseOfflineRepo scenarioCreate (scenarioProvider (One ''Unsupported'')))
       = Inl (KinveyError noneSupportedMsg)
   \<and> \<not> listedSupported (isSupported memoryOnly) [DBAdapter_IndexedDB]
   \<and> adapter (fst (DB_constructor memoryOnly (JStr ''kid'') (AdaptersList [DBAdapter_IndexedDB])
        scenarioWorld)) = Some (New Memory (JStr ''kid''))"
proof -
  have h1: "\<not> passes scenarioCreate (scenarioProvider (One ''Unsupported'')) ''Unsupported''"
    by (rule scenario_unsupported_fails)
  then have h1': "\<forall>x\<in>set (ensureArray (storage (scenarioProvider (One ''Unsupported'')))).
                    \<not> passes scenarioCreate (scenarioProvider (One ''Unsupported'')) x"
    by (simp add: scenarioProvider_def)
  have h2: "\<not> listedSupported (isSupported memoryOnly) [DBAdapter_IndexedDB]"
    by (simp add: listedSupported_def adapterClass_def memoryOnly_def)
  have m: "isSupported memoryOnly Memory" by (simp add: memoryOnly_def)
  note t = C3_exhausted_list[of "scenarioProvider (One ''Unsupported'')" scenarioCreate memoryOnly
      "[DBAdapter_IndexedDB]" "JStr ''kid''" scenarioWorld]
  from t h1' have c1: "fst (chooseOfflineRepo scenarioCreate (scenarioProvider (One ''Unsupported'')))
       = Inl (KinveyError noneSupportedMsg)" by blast
  from t h2 m have c2: "adapter (fst (DB_constructor memoryOnly (JStr ''kid'')
        (AdaptersList [DBAdapter_IndexedDB]) scenarioWorld)) = Some (New Memory (JStr ''kid''))"
    by simp
  show ?thesis using h1 h2 c1 c2 by simp
qed

section \<open>Properties of the operation serializer\<close>

subsection \<open>Shapes of chains\<close>

lemma waitingChain_all_waiting: "waitingChain p r \<Longrightarrow> \<forall>e\<in>set r. isWaiting e"
  by (induction p r rule: waitingChain.induct) auto

lemma waitingChain_snoc:
  "waitingChain p r \<Longrightarrow>
   waitingChain p (r @ [(x, key, Waiting (if r = [] then p else fst (last r)))])"
  by (induction p r rule: waitingChain.induct) auto

lemma chainOK_all_settled:
  "chainOK c \<Longrightarrow> c \<noteq> [] \<Longrightarrow> isSettled (last c) \<Longrightarrow> \<forall>e\<in>set c. isSettled e"
proof (induction c rule: chainOK.induct)
  case 1
  then show ?case by simp
next
  case (2 x key b r)
  show ?case
  proof (cases "r = []")
    case True
    then show ?thesis by simp
  next
    case False
    have "chainOK r" using "2.prems"(1) by simp
    moreover have "isSettled (last r)" using "2.prems"(3) False by simp
    ultimately have "\<forall>e\<in>set r. isSettled e" using "2.IH" False by blast
    then show ?thesis by simp
  qed
next
  case (3 x key r)
  show ?case
  proof (cases "r = []")
    case True
    with "3.prems"(3) show ?thesis by simp
  next
    case False
    then have "last r \<in> set r" by simp
    moreover have "waitingChain x r" using "3.prems"(1) by simp
    ultimately have "isWaiting (last r)" using waitingChain_all_waiting[of x r] by blast
    moreover have "isSettled (last r)" using "3.prems"(3) False by simp
    ultimately show ?thesis by (cases "last r" rule: isWaiting.cases) simp_all
  qed
next
  case (4 x key p r)
  then show ?case by simp
qed

lemma chainOK_snoc_running:
  "\<forall>e\<in>set c. isSettled e \<Longrightarrow> chainOK (c @ [(x, key, Running)])"
  by (induction c rule: chainOK.induct) auto

lemma chainOK_snoc_waiting:
  "chainOK c \<Longrightarrow> c \<noteq> [] \<Longrightarrow> \<not> isSettled (last c) \<Longrightarrow>
   chainOK (c @ [(x, key, Waiting (fst (last c)))])"
proof (induction c rule: chainOK.induct)
  case (3 y k r)
  then show ?case using waitingChain_snoc[of y r x key] by auto
qed auto

lemma chainOK_startedInOrder: "chainOK c \<Longrightarrow> startedInOrder c"
proof (induction c rule: chainOK.induct)
  case (3 x key r)
  have w: "\<forall>e\<in>set r. isWaiting e" using 3 waitingChain_all_waiting by simp
  have "startedInOrder r" if "\<forall>e\<in>set r. isWaiting e" for r :: "entry list"
    using that by (induction r) auto
  with w show ?case by simp
qed auto

lemma chainOK_running_once: "chainOK c \<Longrightarrow> length (filter isRunning c) \<le> 1"
proof (induction c rule: chainOK.induct)
  case (3 x key r)
  have "\<forall>e\<in>set r. isWaiting e" using 3 waitingChain_all_waiting by simp
  then have "filter isRunning r = []"
    by (induction r) (auto elim: isWaiting.elims)
  then show ?case by simp
qed auto

lemma chainOK_nextRuns: "chainOK c \<Longrightarrow> nextRuns c"
  by (induction c rule: chainOK.induct) (auto simp: nextRuns_def)

subsection \<open>Settling an operation, entry by entry\<close>

lemma onSettled_fst: "fst (onSettled operation outcome e) = fst e"
  by (cases e) (simp add: onSettled_def)

lemma onSettled_key: "fst (snd (onSettled operation outcome e)) = fst (snd e)"
  by (cases e) (simp add: onSettled_def)

lemma onSettled_other:
  "x \<noteq> operation \<Longrightarrow> st \<noteq> Waiting operation \<Longrightarrow>
   onSettled operation outcome (x, key, st) = (x, key, st)"
  by (simp add: onSettled_def)

lemma onSettled_self:
  "onSettled operation outcome (operation, key, st) = (operation, key, Settled outcome)"
  by (simp add: onSettled_def)

lemma onSettled_waiter:
  "x \<noteq> operation \<Longrightarrow>
   onSettled operation outcome (x, key, Waiting operation) = (x, key, Running)"
  by (simp add: onSettled_def)

lemma waitingChain_untouched:
  "waitingChain p r \<Longrightarrow> operation \<noteq> p \<Longrightarrow> operation \<notin> fst ` set r \<Longrightarrow>
   map (onSettled operation outcome) r = r"
  by (induction p r rule: waitingChain.induct) (auto simp: onSettled_other)

lemma chainOK_untouched:
  "chainOK c \<Longrightarrow> operation \<notin> fst ` set c \<Longrightarrow> map (onSettled operation outcome) c = c"
proof (induction c rule: chainOK.induct)
  case (3 x key r)
  then have "map (onSettled operation outcome) r = r"
    using waitingChain_untouched[of x r operation outcome] by auto
  with 3 show ?case by (simp add: onSettled_other)
qed (auto simp: onSettled_other)

lemma waitingChain_released:
  "waitingChain operation r \<Longrightarrow> distinct (operation # map fst r) \<Longrightarrow>
   chainOK (map (onSettled operation outcome) r)"
proof (cases r)
  case Nil
  then show ?thesis by simp
next
  case (Cons e r')
  assume w: "waitingChain operation r" and d: "distinct (operation # map fst r)"
  obtain x key st where e: "e = (x, key, st)" by (cases e)
  from w Cons e have st: "st = Waiting operation" and w': "waitingChain x r'" by simp_all
  from d Cons e have ne: "x \<noteq> operation" and "operation \<notin> fst ` set r'" by auto
  with w' have "map (onSettled operation outcome) r' = r'"
    using waitingChain_untouched[of x r' operation outcome] by auto
  with w' st ne show ?thesis by (simp add: Cons e onSettled_waiter)
qed

lemma chainOK_settled:
  "chainOK c \<Longrightarrow> distinct (map fst c) \<Longrightarrow> (operation, k, Running) \<in> set c \<Longrightarrow>
   chainOK (map (onSettled operation outcome) c)"
proof (induction c rule: chainOK.induct)
  case 1
  then show ?case by simp
next
  case (2 x key b r)
  have mem: "(operation, k, Running) \<in> set r" using "2.prems"(3) by simp
  then have "operation \<in> fst ` set r" by force
  then have "x \<noteq> operation" using "2.prems"(2) by auto
  moreover have "chainOK (map (onSettled operation outcome) r)"
    using "2.IH" "2.prems" mem by simp
  ultimately show ?case by (simp add: onSettled_other)
next
  case (3 x key r)
  have w: "waitingChain x r" using "3.prems"(1) by simp
  have "(operation, k, Running) \<notin> set r"
    using waitingChain_all_waiting[OF w] by auto
  then have x: "x = operation" using "3.prems"(3) by simp
  have "chainOK (map (onSettled operation outcome) r)"
    using waitingChain_released[of operation r outcome] w x "3.prems"(2) by simp
  then show ?case by (simp add: x onSettled_self)
next
  case (4 x key p r)
  then show ?case by simp
qed

subsection \<open>The invariant of the serializer\<close>

lemma invariant_initial: "invariant initial"
  by (simp add: invariant_def initial_def chainOf_def)

lemma stateOf_entry:
  "distinct (map fst (submitted s)) \<Longrightarrow> (x, key, st) \<in> set (submitted s) \<Longrightarrow>
   stateOf s x = Some st"
  by (simp add: stateOf_def)

lemma stateOf_running:
  "stateOf s x = Some Running \<Longrightarrow> \<exists>key. (x, key, Running) \<in> set (submitted s)"
proof -
  assume "stateOf s x = Some Running"
  then obtain v where v: "map_of (submitted s) x = Some v" and "snd v = Running"
    by (auto simp: stateOf_def)
  then have "(x, fst v, Running) \<in> set (submitted s)"
    using map_of_SomeD[OF v] by (cases v) simp
  then show ?thesis by blast
qed

lemma chainOf_run:
  "chainOf k (run key operation s)
     = chainOf k s @ (if k = key then [(operation, key, startState s key)] else [])"
  by (simp add: chainOf_def run_def)

lemma chainOf_settle:
  "chainOf k (settle operation outcome s) = map (onSettled operation outcome) (chainOf k s)"
  by (simp add: chainOf_def settle_def filter_map o_def onSettled_key)

lemma chainOf_subset: "set (chainOf k s) \<subseteq> set (submitted s)"
  by (auto simp: chainOf_def)

lemma chainOf_distinct:
  "distinct (map fst (submitted s)) \<Longrightarrow> distinct (map fst (chainOf k s))"
  by (simp add: chainOf_def distinct_map_filter)

lemma startState_chain:
  assumes "invariant s"
  shows "chainOK (chainOf key s @ [(operation, key, startState s key)])"
proof (cases "chainOf key s = []")
  case True
  with assms have "tails s key = None" by (simp add: invariant_def)
  with True show ?thesis by (simp add: startState_def)
next
  case False
  let ?c = "chainOf key s"
  obtain t k st where l: "last ?c = (t, k, st)" by (cases "last ?c")
  have ok: "chainOK ?c" and d: "distinct (map fst (submitted s))"
    using assms by (simp_all add: invariant_def)
  have t: "tails s key = Some t" using assms False l by (simp add: invariant_def)
  have "last ?c \<in> set (submitted s)" using False chainOf_subset[of key s] by auto
  then have st: "stateOf s t = Some st" using stateOf_entry[OF d] l by simp
  show ?thesis
  proof (cases st)
    case (Settled b)
    then have "isSettled (last ?c)" by (simp add: l)
    then have "\<forall>e\<in>set ?c. isSettled e" using chainOK_all_settled[OF ok False] by simp
    moreover have "startState s key = Running" by (simp add: startState_def t st Settled)
    ultimately show ?thesis by (simp add: chainOK_snoc_running)
  next
    case Running
    then have "\<not> isSettled (last ?c)" by (simp add: l)
    moreover have "startState s key = Waiting (fst (last ?c))"
      by (simp add: startState_def t st Running l)
    ultimately show ?thesis using chainOK_snoc_waiting[OF ok False] by simp
  next
    case (Waiting p)
    then have "\<not> isSettled (last ?c)" by (simp add: l)
    moreover have "startState s key = Waiting (fst (last ?c))"
      by (simp add: startState_def t st Waiting l)
    ultimately show ?thesis using chainOK_snoc_waiting[OF ok False] by simp
  qed
qed

lemma invariant_run:
  assumes "invariant s" and "operation \<notin> fst ` set (submitted s)"
  shows "invariant (run key operation s)"
proof -
  have d: "distinct (map fst (submitted (run key operation s)))"
    using assms by (simp add: invariant_def run_def)
  have "chainOK (chainOf k (run key operation s))
        \<and> tails (run key operation s) k
            = (if chainOf k (run key operation s) = [] then None
               else Some (fst (last (chainOf k (run key operation s)))))" for k
  proof (cases "k = key")
    case True
    then show ?thesis using startState_chain[OF assms(1), of key operation]
      by (simp add: chainOf_run) (simp add: run_def)
  next
    case False
    then have "tails (run key operation s) k = tails s k" by (simp add: run_def)
    with False assms(1) show ?thesis by (simp add: chainOf_run invariant_def)
  qed
  with d show ?thesis by (simp add: invariant_def)
qed

lemma invariant_settle:
  assumes "invariant s" and "stateOf s operation = Some Running"
  shows "invariant (settle operation outcome s)"
proof -
  have d: "distinct (map fst (submitted s))" using assms(1) by (simp add: invariant_def)
  have d': "distinct (map fst (submitted (settle operation outcome s)))"
    using d by (simp add: settle_def o_def onSettled_fst)
  from stateOf_running[OF assms(2)] obtain k0 where
    r: "(operation, k0, Running) \<in> set (submitted s)" by blast
  have "chainOK (chainOf k (settle operation outcome s))
        \<and> tails (settle operation outcome s) k
            = (if chainOf k (settle operation outcome s) = [] then None
               else Some (fst (last (chainOf k (settle operation outcome s)))))" for k
  proof -
    let ?c = "chainOf k s"
    have ok: "chainOK ?c" using assms(1) by (simp add: invariant_def)
    have dc: "distinct (map fst ?c)" using d by (rule chainOf_distinct)
    have ok': "chainOK (map (onSettled operation outcome) ?c)"
    proof (cases "k = k0")
      case True
      then have "(operation, k0, Running) \<in> set ?c" using r by (simp add: chainOf_def)
      then show ?thesis using chainOK_settled[OF ok dc] by simp
    next
      case False
      have "operation \<notin> fst ` set ?c"
      proof
        assume "operation \<in> fst ` set ?c"
        then obtain k' st where m: "(operation, k', st) \<in> set ?c" by force
        then have "k' = k" by (simp add: chainOf_def)
        have "(operation, k', st) \<in> set (submitted s)" using m chainOf_subset by blast
        then have "(k', st) = (k0, Running)"
          using r d by (meson eq_key_imp_eq_value)
        with \<open>k' = k\<close> False show False by simp
      qed
      then have "map (onSettled operation outcome) ?c = ?c" by (rule chainOK_untouched[OF ok])
      then show ?thesis using ok by simp
    qed
    have t: "tails (settle operation outcome s) k = tails s k" by (simp add: settle_def)
    have "tails s k = (if ?c = [] then None else Some (fst (last ?c)))"
      using assms(1) by (simp add: invariant_def)
    then show ?thesis
      using ok' by (simp add: chainOf_settle t last_map onSettled_fst)
  qed
  with d' show ?thesis by (simp add: invariant_def)
qed

lemma invariant_fire: "invariant s \<Longrightarrow> enabled e s \<Longrightarrow> invariant (fire e s)"
  by (cases e) (simp_all add: invariant_run invariant_settle)

lemma invariant_exec: "invariant s \<Longrightarrow> exec es s = Some s' \<Longrightarrow> invariant s'"
proof (induction es arbitrary: s)
  case Nil
  then show ?case by simp
next
  case (Cons e es)
  then have en: "enabled e s" and ex: "exec es (fire e s) = Some s'"
    by (simp_all split: if_splits)
  from Cons.IH[OF invariant_fire[OF Cons.prems(1) en] ex] show ?case .
qed

lemma settle_other_key:
  assumes "invariant s" and "(operation, key', Running) \<in> set (submitted s)" and "key' \<noteq> key"
  shows "chainOf key (settle operation outcome s) = chainOf key s"
proof -
  have d: "distinct (map fst (submitted s))" and ok: "chainOK (chainOf key s)"
    using assms(1) by (simp_all add: invariant_def)
  have "operation \<notin> fst ` set (chainOf key s)"
  proof
    assume "operation \<in> fst ` set (chainOf key s)"
    then obtain k st where m: "(operation, k, st) \<in> set (chainOf key s)" by force
    then have "k = key" by (simp add: chainOf_def)
    have "(operation, k, st) \<in> set (submitted s)" using m chainOf_subset by blast
    then have "(k, st) = (key', Running)"
      using assms(2) d by (meson eq_key_imp_eq_value)
    with \<open>k = key\<close> assms(3) show False by simp
  qed
  then show ?thesis by (simp add: chainOf_settle chainOK_untouched[OF ok])
qed

subsection \<open>Submissions and completions, step by step\<close>

lemma settled_untouched:
  "\<forall>e\<in>set c. isSettled e \<Longrightarrow> operation \<notin> fst ` set c \<Longrightarrow>
   map (onSettled operation outcome) c = c"
proof (induction c)
  case Nil
  show ?case by simp
next
  case (Cons e c)
  obtain x key st where e: "e = (x, key, st)" by (cases e)
  have "isSettled e" using Cons.prems(1) by simp
  then obtain b where st: "st = Settled b" using e by (cases st) simp_all
  have "x \<noteq> operation" using Cons.prems(2) e by auto
  then have "onSettled operation outcome e = e" by (simp add: e st onSettled_other)
  moreover have "map (onSettled operation outcome) c = c" using Cons by simp
  ultimately show ?case by simp
qed

lemma chainOK_running_split:
  "chainOK (before @ (operation, key, Running) # after) \<Longrightarrow>
   (\<forall>e\<in>set before. isSettled e) \<and> waitingChain operation after"
proof (induction before)
  case Nil
  then show ?case by simp
next
  case (Cons e before)
  obtain x k st where e: "e = (x, k, st)" by (cases e)
  show ?case
  proof (cases st)
    case (Settled b)
    with Cons e show ?thesis by simp
  next
    case Running
    with Cons.prems e have "waitingChain x (before @ (operation, key, Running) # after)" by simp
    from waitingChain_all_waiting[OF this] have "isWaiting (operation, key, Running)" by simp
    then show ?thesis by simp
  next
    case (Waiting p)
    with Cons.prems e show ?thesis by simp
  qed
qed

lemma settle_running:
  assumes "invariant s" and "chainOf key s = before @ (operation, key, Running) # after"
  shows "chainOf key (settle operation outcome s)
           = before @ (operation, key, Settled outcome) #
               (case after of [] \<Rightarrow> [] | (x, k, st) # waiting \<Rightarrow> (x, k, Running) # waiting)"
proof -
  have "chainOK (chainOf key s)" using assms(1) by (simp add: invariant_def)
  then have ok: "chainOK (before @ (operation, key, Running) # after)"
    by (simp only: assms(2))
  have "distinct (map fst (chainOf key s))"
    using assms(1) chainOf_distinct[of s key] by (simp add: invariant_def)
  then have d: "operation \<notin> fst ` set before" "operation \<notin> fst ` set after"
    "distinct (map fst after)"
    by (simp_all add: assms(2))
  from chainOK_running_split[OF ok]
  have sb: "\<forall>e\<in>set before. isSettled e" and wa: "waitingChain operation after" by simp_all
  have b: "map (onSettled operation outcome) before = before"
    by (rule settled_untouched[OF sb d(1)])
  have a: "map (onSettled operation outcome) after
             = (case after of [] \<Rightarrow> [] | (x, k, st) # waiting \<Rightarrow> (x, k, Running) # waiting)"
  proof (cases after)
    case Nil
    then show ?thesis by simp
  next
    case (Cons e waiting)
    obtain x k st where e: "e = (x, k, st)" by (cases e)
    from wa Cons e have st: "st = Waiting operation" and w': "waitingChain x waiting" by simp_all
    from d(2) Cons e have ne: "x \<noteq> operation" and nw: "operation \<notin> fst ` set waiting" by auto
    have "map (onSettled operation outcome) waiting = waiting"
      using waitingChain_untouched[OF w' _ nw] ne by simp
    then show ?thesis by (simp add: Cons e st onSettled_waiter[OF ne])
  qed
  show ?thesis by (simp add: chainOf_settle assms(2) a b onSettled_self)
qed

lemma startState_invariant:
  assumes "invariant s"
  shows "startState s key
           = (if \<forall>e\<in>set (chainOf key s). isSettled e then Running
              else Waiting (fst (last (chainOf key s))))"
proof (cases "chainOf key s = []")
  case True
  with assms have "tails s key = None" by (simp add: invariant_def)
  with True show ?thesis by (simp add: startState_def)
next
  case False
  let ?c = "chainOf key s"
  obtain t k st where l: "last ?c = (t, k, st)" by (cases "last ?c")
  have ok: "chainOK ?c" and d: "distinct (map fst (submitted s))"
    using assms by (simp_all add: invariant_def)
  have t: "tails s key = Some t" using assms False l by (simp add: invariant_def)
  have m: "last ?c \<in> set ?c" using False by simp
  then have "last ?c \<in> set (submitted s)" using chainOf_subset[of key s] by auto
  then have st: "stateOf s t = Some st" using stateOf_entry[OF d] l by simp
  show ?thesis
  proof (cases "isSettled (last ?c)")
    case True
    then have "\<forall>e\<in>set ?c. isSettled e" using chainOK_all_settled[OF ok False] by simp
    moreover obtain b where "st = Settled b" using True l by (cases st) simp_all
    then have "startState s key = Running" by (simp add: startState_def t st)
    ultimately show ?thesis by simp
  next
    case f: False
    then have "\<not> (\<forall>e\<in>set ?c. isSettled e)" using m by blast
    moreover have "startState s key = Waiting t"
      using f l by (cases st) (simp_all add: startState_def t st)
    ultimately show ?thesis by (simp add: l)
  qed
qed

lemma settled_by_completion:
  "exec es s0 = Some s \<Longrightarrow> (x, k, Settled b) \<in> set (submitted s) \<Longrightarrow>
   (x, k, Settled b) \<in> set (submitted s0) \<or> Settle x b \<in> set es"
proof (induction es arbitrary: s0)
  case Nil
  then show ?case by simp
next
  case (Cons e es)
  then have en: "enabled e s0" and ex: "exec es (fire e s0) = Some s"
    by (simp_all split: if_splits)
  from Cons.IH[OF ex Cons.prems(2)]
  consider "(x, k, Settled b) \<in> set (submitted (fire e s0))" | "Settle x b \<in> set es" by blast
  then show ?case
  proof cases
    case 1
    show ?thesis
    proof (cases e)
      case (Run key operation)
      have "startState s0 key \<noteq> Settled b"
        by (simp add: startState_def split: option.split opstate.split)
      with 1 Run show ?thesis by (auto simp: run_def)
    next
      case (Settle operation outcome)
      with 1 obtain e0 where e0: "e0 \<in> set (submitted s0)"
        "onSettled operation outcome e0 = (x, k, Settled b)"
        by (auto simp: settle_def)
      obtain y k' st where y: "e0 = (y, k', st)" by (cases e0)
      show ?thesis
      proof (cases "y = operation")
        case True
        with e0(2) y have "x = operation" "b = outcome" by (simp_all add: onSettled_def)
        with Settle show ?thesis by simp
      next
        case False
        with e0(2) y have "e0 = (x, k, Settled b)"
          by (cases "st = Waiting operation") (simp_all add: onSettled_def)
        with e0(1) show ?thesis by simp
      qed
    qed
  next
    case 2
    then show ?thesis by simp
  qed
qed

lemma scenario_exec:
  "exec [Run ''a'' 1, Run ''a'' 2, Run ''b'' 3, Settle 1 False] initial = Some afterFailure"
  by (simp add: initial_def afterFailure_def run_def settle_def startState_def stateOf_def
      onSettled_def)

lemma scenario_submitted:
  "exec [Run ''a'' 1, Run ''a'' 2, Run ''b'' 3] initial = Some beforeFailure"
  by (simp add: initial_def beforeFailure_def run_def startState_def stateOf_def)

text \<open>
  Claim C9, on the serializer as the spec describes it.  In every state that a sequence
  of submissions and completions leads to, and for every key:
  the operations of the key have started in the order of their submission (an operation
  that has not settled is followed only by operations that have not started); at most
  one of them is running; the first one that has not settled is running.
  A submission under the key starts at once when every earlier operation of the key has
  settled, whatever their outcomes, and otherwise waits for the last one.  When the
  running operation of the key completes, with a success or with a failure, it becomes
  settled with that outcome, the operation submitted after it starts, and nothing else
  changes in the chain: a failure is not passed on to the operations behind it.  An
  operation is settled only by its own completion, with its own outcome.  What happens
  under another key, a submission or the completion of a running operation, leaves the
  chain of the key as it is.
\<close>

theorem C9_serializer_orders_each_key:
  assumes "exec es initial = Some s"
  shows "startedInOrder (chainOf key s)
       \<and> length (filter isRunning (chainOf key s)) \<le> 1
       \<and> nextRuns (chainOf key s)
       \<and> (\<forall>operation.
             chainOf key (run key operation s)
               = chainOf key s @
                   [(operation, key,
                     if \<forall>e\<in>set (chainOf key s). isSettled e then Running
                     else Waiting (fst (last (chainOf key s))))])
       \<and> (\<forall>operation outcome before after.
             chainOf key s = before @ (operation, key, Running) # after \<longrightarrow>
             chainOf key (settle operation outcome s)
               = before @ (operation, key, Settled outcome) #
                   (case after of [] \<Rightarrow> [] | (x, k, st) # waiting \<Rightarrow> (x, k, Running) # waiting))
       \<and> (\<forall>operation outcome.
             (operation, key, Settled outcome) \<in> set (chainOf key s) \<longrightarrow>
             Settle operation outcome \<in> set es)
       \<and> (\<forall>key' operation. key' \<noteq> key \<longrightarrow>
             chainOf key (run key' operation s) = chainOf key s)
       \<and> (\<forall>key' operation outcome.
             key' \<noteq> key \<and> (operation, key', Running) \<in> set (submitted s) \<longrightarrow>
             chainOf key (settle operation outcome s) = chainOf key s)"
proof -
  have inv: "invariant s" using invariant_exec[OF invariant_initial assms] .
  then have ok: "chainOK (chainOf key s)" by (simp add: invariant_def)
  show ?thesis
  proof (intro conjI allI impI)
    show "startedInOrder (chainOf key s)" by (rule chainOK_startedInOrder[OF ok])
    show "length (filter isRunning (chainOf key s)) \<le> 1" by (rule chainOK_running_once[OF ok])
    show "nextRuns (chainOf key s)" by (rule chainOK_nextRuns[OF ok])
  next
    fix operation
    show "chainOf key (run key operation s)
               = chainOf key s @
                   [(operation, key,
                     if \<forall>e\<in>set (chainOf key s). isSettled e then Running
                     else Waiting (fst (last (chainOf key s))))]"
      by (simp only: chainOf_run startState_invariant[OF inv] refl if_True)
  next
    fix operation outcome before after
    assume "chainOf key s = before @ (operation, key, Running) # after"
    then show "chainOf key (settle operation outcome s)
               = before @ (operation, key, Settled outcome) #
                   (case after of [] \<Rightarrow> [] | (x, k, st) # waiting \<Rightarrow> (x, k, Running) # waiting)"
      by (rule settle_running[OF inv])
  next
    fix operation outcome
    assume "(operation, key, Settled outcome) \<in> set (chainOf key s)"
    then have "(operation, key, Settled outcome) \<in> set (submitted s)"
      using chainOf_subset[of key s] by blast
    from settled_by_completion[OF assms this]
    show "Settle operation outcome \<in> set es" by (simp add: initial_def)
  next
    fix key' operation
    assume "key' \<noteq> key"
    then show "chainOf key (run key' operation s) = chainOf key s" by (simp add: chainOf_run)
  next
    fix key' operation outcome
    assume h: "key' \<noteq> key \<and> (operation, key', Running) \<in> set (submitted s)"
    show "chainOf key (settle operation outcome s) = chainOf key s"
      by (rule settle_other_key[OF inv conjunct2[OF h] conjunct1[OF h]])
  qed
qed

theorem C9_serializer_orders_each_key_witness:
  "exec [Run ''a'' 1, Run ''a'' 2, Run ''b'' 3] initial = Some beforeFailure
   \<and> chainOf ''a'' beforeFailure = [(1, ''a'', Running), (2, ''a'', Waiting 1)]
   \<and> chainOf ''a'' (settle 1 False beforeFailure)
       = [(1, ''a'', Settled False), (2, ''a'', Running)]
   \<and> chainOf ''a'' (run ''a'' 4 beforeFailure)
       = [(1, ''a'', Running), (2, ''a'', Waiting 1), (4, ''a'', Waiting 2)]
   \<and> chainOf ''a'' (settle 3 True beforeFailure) = chainOf ''a'' beforeFailure
   \<and> startedInOrder (chainOf ''a'' beforeFailure)
   \<and> length (filter isRunning (chainOf ''a'' beforeFailure)) \<le> 1
   \<and> nextRuns (chainOf ''a'' beforeFailure)
   \<and> exec [Run ''a'' 1, Run ''a'' 2, Run ''b'' 3, Settle 1 False] initial = Some afterFailure
   \<and> chainOf ''a'' afterFailure = [(1, ''a'', Settled False), (2, ''a'', Running)]
   \<and> Settle 1 False \<in> set [Run ''a'' 1, Run ''a'' 2, Run ''b'' 3, Settle 1 False]"
proof -
  note t = C9_serializer_orders_each_key[OF scenario_submitted, of "''a''"]
  note u = C9_serializer_orders_each_key[OF scenario_exec, of "''a''"]
  have c: "chainOf ''a'' beforeFailure = [(1, ''a'', Running), (2, ''a'', Waiting 1)]"
    by (simp add: chainOf_def beforeFailure_def)
  have c': "chainOf ''a'' afterFailure = [(1, ''a'', Settled False), (2, ''a'', Running)]"
    by (simp add: chainOf_def afterFailure_def)
  have c0: "chainOf ''a'' beforeFailure = [] @ (1, ''a'', Running) # [(2, ''a'', Waiting 1)]"
    by (simp add: c)
  have r: "(3, ''b'', Running) \<in> set (submitted beforeFailure)" by (simp add: beforeFailure_def)
  have ne: "''b'' \<noteq> ''a''" by simp
  have m: "(1, ''a'', Settled False) \<in> set (chainOf ''a'' afterFailure)" by (simp add: c')
  note t4 = t[THEN conjunct2, THEN conjunct2, THEN conjunct2, THEN conjunct1, rule_format, of 4]
  note t5 = t[THEN conjunct2, THEN conjunct2, THEN conjunct2, THEN conjunct2, THEN conjunct1,
      rule_format, OF c0, of False]
  note u6 = u[THEN conjunct2, THEN conjunct2, THEN conjunct2, THEN conjunct2, THEN conjunct2,
      THEN conjunct1, rule_format, OF m]
  note t8 = t[THEN conjunct2, THEN conjunct2, THEN conjunct2, THEN conjunct2, THEN conjunct2,
      THEN conjunct2, THEN conjunct2, rule_format, OF conjI[OF ne r], of True]
  have s4: "chainOf ''a'' (run ''a'' 4 beforeFailure)
       = [(1, ''a'', Running), (2, ''a'', Waiting 1), (4, ''a'', Waiting 2)]"
    using t4 by (simp add: c)
  have s5: "chainOf ''a'' (settle 1 False beforeFailure)
       = [(1, ''a'', Settled False), (2, ''a'', Running)]"
    using t5 by simp
  show ?thesis
    by (intro conjI) (rule scenario_submitted, rule c, rule s5, rule s4, rule t8,
      rule conjunct1[OF t], rule conjunct1[OF conjunct2[OF t]],
      rule conjunct1[OF conjunct2[OF conjunct2[OF t]]], rule scenario_exec, rule c', rule u6)
qed

section \<open>Further properties of the cache engine\<close>

text \<open>
  Identifier generation: \<open>generateObjectId(length)\<close> returns a string of the
  requested length over the hexadecimal alphabet, and makes one draw per character.
\<close>

theorem generated_identifier_is_hexadecimal:
  "length (fst (DB_generateObjectId n w)) = n
   \<and> set (fst (DB_generateObjectId n w)) \<subseteq> set ''abcdef0123456789''
   \<and> drawn (snd (DB_generateObjectId n w)) = drawn w + n"
  by (rule generateObjectId_shape)

text \<open>
  The invariant of persisted records: when \<open>save\<close> prepares the records without
  error, the sequence it hands to the adapter has one record for each record given,
  and each of them has a truthy identifier and a truthy metadata field.
\<close>

theorem saved_records_are_populated:
  assumes "prepareAll es w = (Inr es', w')"
  shows "length es' = length es
       \<and> (\<forall>e'\<in>set es'. truthy (getProp e' idAttribute) \<and> truthy (getProp e' kmdAttribute))"
  using assms by (rule prepareAll_populates)

theorem saved_records_are_populated_witness:
  "prepareAll [givenNote] scenarioWorld = (Inr [savedNote], scenarioWorld)
   \<and> truthy (getProp savedNote idAttribute) \<and> truthy (getProp savedNote kmdAttribute)"
  using saved_records_are_populated[OF scenario_prepare_given] scenario_prepare_given
  by simp

text \<open>
  \<open>find\<close> normalizes a missing collection: when the adapter's \<open>find\<close> throws
  or is rejected with \<open>NotFoundError\<close>, \<open>find\<close> returns the empty sequence,
  whatever the query.
\<close>

theorem find_normalizes_not_found:
  assumes "await (fst (adapter_find P this c w)) = Inl (NotFoundError m)"
  shows "fst (DB_find P this c q w) = Inr []"
  using assms by (rule DB_find_not_found)

theorem find_normalizes_not_found_witness:
  "await (fst (adapter_find memoryOnly memoryDb (JStr ''absent'') scenarioWorld))
     = Inl (NotFoundError ''collection'')
   \<and> fst (DB_find memoryOnly memoryDb (JStr ''absent'') (QInstance 0) scenarioWorld) = Inr []"
  using find_normalizes_not_found[OF scenario_find_absent, of "QInstance 0"] scenario_find_absent
  by simp

end
